theory Spec2Isabelle
  imports
    Complex_Main
    "HOL-Library.FSet"
    "HOL-Library.Finite_Map"
    "HOL-Library.List_Lexorder"
    "HOL-Library.Char_ord"
begin

section \<open>Conventions of the embedding\<close>

text \<open>
  The Go packages \<^verbatim>\<open>graph\<close>, \<^verbatim>\<open>factors\<close>, \<^verbatim>\<open>estimators\<close> and \<^verbatim>\<open>models\<close> are embedded
  function by function.

  \<^item> A Go \<^verbatim>\<open>map[string]bool\<close> into which only \<^verbatim>\<open>true\<close> is ever stored is a finite set
    of keys (\<open>string fset\<close>); a \<^verbatim>\<open>map[string]T\<close> is a finite map. Reading a missing key
    gives the zero value of \<open>T\<close>, reading or ranging over a nil inner map gives nothing,
    assigning into a nil inner map panics.
  \<^item> \<^verbatim>\<open>range\<close> over a Go map visits the keys in an unspecified order. The embedding visits
    them in ascending order; every function modelled here either sorts what it collected
    or computes a result that does not depend on the order.
  \<^item> Strings are compared bytewise (\<^verbatim>\<open>sort.Strings\<close>), which is the lexicographic order
    on \<open>char list\<close>.
  \<^item> Go \<^verbatim>\<open>int\<close> is \<open>int\<close>: the counters and indices below stay far from 64-bit
    overflow on any input that fits in memory.
  \<^item> \<^verbatim>\<open>float64\<close> is idealised as \<open>real\<close>: rounding, infinities and NaN are outside
    the model.
  \<^item> A returned Go \<^verbatim>\<open>error\<close> is \<open>Err e\<close>, a run-time panic is \<open>Panic p\<close>; a fallible
    function returns \<open>failure + 'a\<close>.
\<close>

datatype panic = NilMapAssignment | IndexOutOfRange | NegativeLength

datatype error =
    CycleOnAddEdge string string
  | CycleDetected
  | ValuesLengthMismatch int int
  | CardinalityMismatch string
  | VariablesEmpty
  | MeanMissing string
  | CovarianceMissing string
  | CovariancePairMissing string string
  | CovarianceNotSymmetric
  | CannotMarginalizeAll
  | AllVariablesObserved
  | SingularMatrix
  | InvertFailed error
  | DependentMultiplyNotImplemented
  | VarianceNotPositive
  | NoData string
  | InsufficientData string
  | InvalidDimensions
  | SingularRegression
  | RegressionFailed error
  | DiscreteParentsNotImplemented

datatype failure = Err error | Panic panic

section \<open>Package graph: the DAG\<close>

record DAG =
  nodes :: "string fset"
  edges :: "(string, string fset) fmap"
  parents :: "(string, string fset) fmap"

text \<open>\<^verbatim>\<open>m[k]\<close> read from a \<^verbatim>\<open>map[string]map[string]bool\<close>: a missing key is the nil map.\<close>

definition innerMap :: "(string, string fset) fmap \<Rightarrow> string \<Rightarrow> string fset" where
  "innerMap m k = (case fmlookup m k of None \<Rightarrow> {||} | Some s \<Rightarrow> s)"

definition NewDAG :: DAG where
  "NewDAG = \<lparr>nodes = {||}, edges = fmempty, parents = fmempty\<rparr>"

definition AddNode :: "DAG \<Rightarrow> string \<Rightarrow> DAG" where
  "AddNode d node =
     (if node |\<in>| nodes d then d
      else d\<lparr>nodes := finsert node (nodes d),
             edges := fmupd node {||} (edges d),
             parents := fmupd node {||} (parents d)\<rparr>)"

text \<open>
  \<^verbatim>\<open>ancestorsHelper\<close> is a recursive depth-first search over the parent map with a shared
  \<^verbatim>\<open>visited\<close> map. The embedding keeps the loop iterations that are still pending in the
  enclosing calls as an explicit stack: the head of the stack is the node of the call
  that runs next.
\<close>

function ancestorsHelper :: "DAG \<Rightarrow> string list \<Rightarrow> string fset \<Rightarrow> string fset" where
  "ancestorsHelper d [] visited = visited"
| "ancestorsHelper d (node # pending) visited =
     (if node |\<in>| visited then ancestorsHelper d pending visited
      else ancestorsHelper d
             (sorted_list_of_fset (innerMap (parents d) node) @ pending)
             (finsert node visited))"
  by pat_completeness auto
termination
proof (relation "measures [\<lambda>(d, pending, visited). card (fset (fmdom (parents d)) - fset visited),
                           \<lambda>(d, pending, visited). length pending]", goal_cases)
  case 1
  show ?case by simp
next
  case (2 d node pending visited)
  show ?case by simp
next
  case (3 d node pending visited)
  show ?case
  proof (cases "node |\<in>| fmdom (parents d)")
    case True
    have "fset (fmdom (parents d)) - fset (finsert node visited)
            \<subset> fset (fmdom (parents d)) - fset visited"
      using True 3 by auto
    then have "card (fset (fmdom (parents d)) - fset (finsert node visited))
                 < card (fset (fmdom (parents d)) - fset visited)"
      by (intro psubset_card_mono) auto
    then show ?thesis by simp
  next
    case False
    then have "innerMap (parents d) node = {||}"
      by (auto simp: innerMap_def fmdom_notI split: option.splits)
    moreover have "fset (fmdom (parents d)) - fset (finsert node visited)
            = fset (fmdom (parents d)) - fset visited"
      using False by auto
    ultimately show ?thesis by (simp add: sorted_list_of_fset.rep_eq)
  qed
qed

definition Ancestors :: "DAG \<Rightarrow> string \<Rightarrow> string list" where
  "Ancestors d node = sorted_list_of_fset (ancestorsHelper d [node] {||} |-| {|node|})"

definition wouldCreateCycle :: "DAG \<Rightarrow> string \<Rightarrow> string \<Rightarrow> bool" where
  "wouldCreateCycle d parent child = (child \<in> set (Ancestors d parent))"

text \<open>
  \<^verbatim>\<open>AddEdge\<close> mutates the receiver and returns an error: the embedding returns the DAG as
  the call leaves it, together with the error (\<open>None\<close> is Go's \<^verbatim>\<open>nil\<close>).
\<close>

definition AddEdge :: "DAG \<Rightarrow> string \<Rightarrow> string \<Rightarrow> DAG \<times> failure option" where
  "AddEdge d parent child =
     (let d1 = AddNode (AddNode d parent) child in
      if wouldCreateCycle d1 parent child
      then (d1, Some (Err (CycleOnAddEdge parent child)))
      else (case fmlookup (edges d1) parent of
              None \<Rightarrow> (d1, Some (Panic NilMapAssignment))
            | Some cs \<Rightarrow>
                (let d2 = d1\<lparr>edges := fmupd parent (finsert child cs) (edges d1)\<rparr> in
                 case fmlookup (parents d2) child of
                   None \<Rightarrow> (d2, Some (Panic NilMapAssignment))
                 | Some ps \<Rightarrow>
                     (d2\<lparr>parents := fmupd child (finsert parent ps) (parents d2)\<rparr>, None))))"

definition RemoveEdge :: "DAG \<Rightarrow> string \<Rightarrow> string \<Rightarrow> DAG" where
  "RemoveEdge d parent child =
     (let d1 = (case fmlookup (edges d) parent of
                  None \<Rightarrow> d
                | Some cs \<Rightarrow> d\<lparr>edges := fmupd parent (cs |-| {|child|}) (edges d)\<rparr>)
      in case fmlookup (parents d1) child of
           None \<Rightarrow> d1
         | Some ps \<Rightarrow> d1\<lparr>parents := fmupd child (ps |-| {|parent|}) (parents d1)\<rparr>)"

definition HasEdge :: "DAG \<Rightarrow> string \<Rightarrow> string \<Rightarrow> bool" where
  "HasEdge d parent child =
     (case fmlookup (edges d) parent of None \<Rightarrow> False | Some cs \<Rightarrow> child |\<in>| cs)"


subsection \<open>Topological sort (Kahn's algorithm)\<close>

text \<open>\<^verbatim>\<open>inDegree[child]\<close> read from a \<^verbatim>\<open>map[string]int\<close>: a missing key reads as 0.\<close>

definition degreeOf :: "(string, int) fmap \<Rightarrow> string \<Rightarrow> int" where
  "degreeOf inDegree k = (case fmlookup inDegree k of None \<Rightarrow> 0 | Some n \<Rightarrow> n)"

text \<open>One iteration of the inner loop over the children of the dequeued node.\<close>

definition visitChild :: "string \<Rightarrow> (string, int) fmap \<times> string list
                            \<Rightarrow> (string, int) fmap \<times> string list" where
  "visitChild child s =
     (let inDegree = fmupd child (degreeOf (fst s) child - 1) (fst s) in
      if degreeOf inDegree child = 0 then (inDegree, snd s @ [child])
      else (inDegree, snd s))"

definition positiveDegrees :: "(string, int) fmap \<Rightarrow> string set" where
  "positiveDegrees inDegree = {k. 0 < degreeOf inDegree k}"

text \<open>
  The loop of \<^verbatim>\<open>TopologicalSort\<close>: the queue is sorted before each dequeue, the head is
  appended to the result, and every child of it has its in-degree decremented and joins
  the queue when the in-degree reaches 0.
\<close>

function kahnLoop :: "DAG \<Rightarrow> string list \<Rightarrow> string list \<Rightarrow> (string, int) fmap \<Rightarrow> string list" where
  "kahnLoop d queue result inDegree =
     (case sort queue of
        [] \<Rightarrow> result
      | node # rest \<Rightarrow>
          (let s = fold visitChild (sorted_list_of_fset (innerMap (edges d) node)) (inDegree, rest)
           in kahnLoop d (snd s) (result @ [node]) (fst s)))"
  by pat_completeness auto
termination
proof (relation "measure (\<lambda>(d, queue, result, inDegree).
                   2 * card (positiveDegrees inDegree) + length queue)", goal_cases)
  case 1
  show ?case by simp
next
  case (2 d queue result inDegree node rest s)
  have fin: "finite (positiveDegrees m)" for m
  proof (rule finite_subset)
    show "positiveDegrees m \<subseteq> fset (fmdom m)"
      by (auto simp: positiveDegrees_def degreeOf_def split: option.splits intro: fmdomI)
  qed simp
  have step: "2 * card (positiveDegrees (fst (visitChild c t))) + length (snd (visitChild c t))
                \<le> 2 * card (positiveDegrees (fst t)) + length (snd t)" for c t
  proof (cases "degreeOf (fst t) c = 1")
    case True
    then have "positiveDegrees (fst (visitChild c t)) = positiveDegrees (fst t) - {c}"
      by (auto simp: visitChild_def positiveDegrees_def degreeOf_def Let_def)
    moreover have "c \<in> positiveDegrees (fst t)"
      using True by (simp add: positiveDegrees_def)
    ultimately have "card (positiveDegrees (fst (visitChild c t))) = card (positiveDegrees (fst t)) - 1"
      "0 < card (positiveDegrees (fst t))"
      using fin [of "fst t"] by (auto simp: card_gt_0_iff)
    moreover have "length (snd (visitChild c t)) = length (snd t) + 1"
      using True by (simp add: visitChild_def degreeOf_def Let_def)
    ultimately show ?thesis by linarith
  next
    case False
    then have "positiveDegrees (fst (visitChild c t)) \<subseteq> positiveDegrees (fst t)"
      by (auto simp: visitChild_def positiveDegrees_def degreeOf_def Let_def split: if_splits)
    then have "card (positiveDegrees (fst (visitChild c t))) \<le> card (positiveDegrees (fst t))"
      using fin by (intro card_mono) auto
    moreover have "snd (visitChild c t) = snd t"
      using False by (simp add: visitChild_def degreeOf_def Let_def)
    ultimately show ?thesis by simp
  qed
  have steps: "2 * card (positiveDegrees (fst (fold visitChild cs t))) + length (snd (fold visitChild cs t))
                \<le> 2 * card (positiveDegrees (fst t)) + length (snd t)" for cs t
  proof (induction cs arbitrary: t)
    case Nil
    show ?case by simp
  next
    case (Cons c cs)
    show ?case using Cons [of "visitChild c t"] step [of c t] by simp
  qed
  have "length (sort queue) = length queue" by simp
  with 2 have "length queue = Suc (length rest)" by simp
  with steps [of "sorted_list_of_fset (innerMap (edges d) node)" "(inDegree, rest)"] 2
  show ?case by simp
qed

declare kahnLoop.simps [simp del]

definition TopologicalSort :: "DAG \<Rightarrow> failure + string list" where
  "TopologicalSort d =
     (let inDegree = fmap_of_list
            (map (\<lambda>node. (node, int (fcard (innerMap (parents d) node))))
                 (sorted_list_of_fset (nodes d)));
          queue = filter (\<lambda>node. degreeOf inDegree node = 0)
                    (sorted_list_of_fset (fmdom inDegree));
          result = kahnLoop d queue [] inDegree
      in if length result \<noteq> fcard (nodes d) then Inl (Err CycleDetected) else Inr result)"

text \<open>
  The fields of \<^verbatim>\<open>DAG\<close> are unexported: every DAG a client holds was made by \<^verbatim>\<open>NewDAG\<close>
  and changed only by \<^verbatim>\<open>AddNode\<close>, \<^verbatim>\<open>AddEdge\<close> (whether it succeeded or not) and
  \<^verbatim>\<open>RemoveEdge\<close>.
\<close>

inductive reachableDAG :: "DAG \<Rightarrow> bool" where
  new: "reachableDAG NewDAG"
| addNode: "reachableDAG d \<Longrightarrow> reachableDAG (AddNode d node)"
| addEdge: "reachableDAG d \<Longrightarrow> reachableDAG (fst (AddEdge d parent child))"
| removeEdge: "reachableDAG d \<Longrightarrow> reachableDAG (RemoveEdge d parent child)"

text \<open>A chain \<open>A \<rightarrow> B \<rightarrow> C\<close>, built through the public interface.\<close>

definition chainABC :: DAG where
  "chainABC = fst (AddEdge (fst (AddEdge NewDAG ''A'' ''B'')) ''B'' ''C'')"

text \<open>The representation invariant of a DAG: both adjacency maps have an entry for
  exactly the nodes, and they mirror each other.\<close>

definition wfDAG :: "DAG \<Rightarrow> bool" where
  "wfDAG d \<longleftrightarrow>
     fmdom (edges d) = nodes d \<and> fmdom (parents d) = nodes d \<and>
     (\<forall>p c. c |\<in>| innerMap (edges d) p \<longleftrightarrow> p |\<in>| innerMap (parents d) c)"


text \<open>
  The invariant of the loop of \<^verbatim>\<open>TopologicalSort\<close>: no node is dequeued twice, the
  counter of a node is the number of its parents not yet in the result, every node of
  the result comes after all its parents, and the queue holds only nodes whose parents
  are all in the result.
\<close>

definition kahnInv :: "DAG \<Rightarrow> string list \<Rightarrow> string list \<Rightarrow> (string, int) fmap \<Rightarrow> bool" where
  "kahnInv d queue result inDegree \<longleftrightarrow>
     distinct (result @ queue) \<and>
     set (result @ queue) \<subseteq> fset (nodes d) \<and>
     (\<forall>v. degreeOf inDegree v = int (card (fset (innerMap (parents d) v) - set result))) \<and>
     (\<forall>i<length result. fset (innerMap (parents d) (result ! i)) \<subseteq> set (take i result)) \<and>
     (\<forall>v\<in>set queue. fset (innerMap (parents d) v) \<subseteq> set result)"

text \<open>What the loop establishes for its result: no repetition, only nodes, and every
  entry preceded by all its parents.\<close>

definition parentsFirst :: "DAG \<Rightarrow> string list \<Rightarrow> bool" where
  "parentsFirst d order \<longleftrightarrow>
     distinct order \<and> set order \<subseteq> fset (nodes d) \<and>
     (\<forall>i<length order. fset (innerMap (parents d) (order ! i)) \<subseteq> set (take i order))"

text \<open>The DAG of \<^verbatim>\<open>TestDAGTopologicalSort\<close>.\<close>

definition diamond :: DAG where
  "diamond = fst (AddEdge (fst (AddEdge (fst (AddEdge NewDAG ''A'' ''C'')) ''B'' ''C'')) ''C'' ''D'')"

text \<open>
  The edge relation of a DAG, a run of \<^verbatim>\<open>AddEdge\<close> calls that all return \<^verbatim>\<open>nil\<close>, and
  the second half of the loop invariant: a node whose parents are all in the result is
  in the result or waits in the queue.
\<close>

definition edgeRel :: "DAG \<Rightarrow> (string \<times> string) set" where
  "edgeRel d = {(u, v). v |\<in>| innerMap (edges d) u}"

fun addEdges :: "DAG \<Rightarrow> (string \<times> string) list \<Rightarrow> DAG option" where
  "addEdges d [] = Some d"
| "addEdges d ((parent, child) # rest) =
     (case snd (AddEdge d parent child) of
        None \<Rightarrow> addEdges (fst (AddEdge d parent child)) rest
      | Some e \<Rightarrow> None)"

definition kahnReady :: "DAG \<Rightarrow> string list \<Rightarrow> string list \<Rightarrow> bool" where
  "kahnReady d queue result \<longleftrightarrow>
     (\<forall>v. v |\<in>| nodes d \<and> fset (innerMap (parents d) v) \<subseteq> set result
          \<longrightarrow> v \<in> set result \<union> set queue)"

section \<open>Package factors: discrete factors\<close>

record DiscreteFactor =
  Variables :: "string list"
  Cardinality :: "(string, int) fmap"
  Values :: "real list"

text \<open>\<^verbatim>\<open>m[k]\<close> read from a \<^verbatim>\<open>map[string]int\<close>: a missing key reads as 0.\<close>

definition readInt :: "(string, int) fmap \<Rightarrow> string \<Rightarrow> int" where
  "readInt m k = (case fmlookup m k of None \<Rightarrow> 0 | Some n \<Rightarrow> n)"

text \<open>Indexing a slice panics outside \<open>[0, len)\<close>; \<^verbatim>\<open>make\<close> panics on a negative length.\<close>

definition readAt :: "real list \<Rightarrow> int \<Rightarrow> failure + real" where
  "readAt xs i = (if 0 \<le> i \<and> i < int (length xs) then Inr (xs ! nat i)
                  else Inl (Panic IndexOutOfRange))"

definition writeAt :: "real list \<Rightarrow> int \<Rightarrow> real \<Rightarrow> failure + real list" where
  "writeAt xs i x = (if 0 \<le> i \<and> i < int (length xs) then Inr (xs[nat i := x])
                     else Inl (Panic IndexOutOfRange))"

definition makeSlice :: "int \<Rightarrow> failure + real list" where
  "makeSlice len = (if len < 0 then Inl (Panic NegativeLength)
                    else Inr (replicate (nat len) 0))"

text \<open>\<^verbatim>\<open>size := 1; for _, v := range variables { size *= cardinality[v] }\<close>\<close>

definition tableSize :: "string list \<Rightarrow> (string, int) fmap \<Rightarrow> int" where
  "tableSize variables cardinality = fold (\<lambda>v n. n * readInt cardinality v) variables 1"

definition NewDiscreteFactor ::
  "string list \<Rightarrow> (string, int) fmap \<Rightarrow> real list \<Rightarrow> failure + DiscreteFactor" where
  "NewDiscreteFactor variables cardinality values =
     (let n = tableSize variables cardinality in
      if int (length values) \<noteq> n
      then Inl (Err (ValuesLengthMismatch (int (length values)) n))
      else Inr \<lparr>Variables = variables, Cardinality = cardinality, Values = values\<rparr>)"

text \<open>
  The stride index: the loop runs from the last variable to the first, carrying
  \<open>(idx, stride)\<close>.
\<close>

definition assignmentToIndex ::
  "string list \<Rightarrow> (string, int) fmap \<Rightarrow> (string, int) fmap \<Rightarrow> int" where
  "assignmentToIndex vars assignment cardinality =
     fst (fold (\<lambda>v (idx, stride). (idx + readInt assignment v * stride,
                                    stride * readInt cardinality v))
               (rev vars) (0, 1))"

definition projectAssignmentToIndex :: "DiscreteFactor \<Rightarrow> (string, int) fmap \<Rightarrow> int" where
  "projectAssignmentToIndex f assignment =
     fst (fold (\<lambda>v (idx, stride). (idx + readInt assignment v * stride,
                                    stride * readInt (Cardinality f) v))
               (rev (Variables f)) (0, 1))"

text \<open>
  The recursive helpers walk the variables from \<^verbatim>\<open>depth\<close> on; the embedding recurses on
  the variables that are left, \<open>drop depth vars\<close>. The \<^verbatim>\<open>assignment\<close> map is shared by
  all calls, and every level writes its own key before each recursive call, so a leaf
  sees exactly the keys set on the path to it: the embedding passes the updated map
  down. The \<^verbatim>\<open>result\<close> slice is threaded through. A \<^verbatim>\<open>for i := 0; i < n; i++\<close> loop is
  a fold over \<open>[0..<nat n]\<close> that stops at the first panic.
\<close>

fun multiplyHelper ::
  "DiscreteFactor \<Rightarrow> DiscreteFactor \<Rightarrow> string list \<Rightarrow> (string, int) fmap \<Rightarrow>
   string list \<Rightarrow> (string, int) fmap \<Rightarrow> real list \<Rightarrow> failure + real list" where
  "multiplyHelper f other vars cardinality [] assignment result =
     (let idx = assignmentToIndex vars assignment cardinality;
          idx1 = projectAssignmentToIndex f assignment;
          idx2 = projectAssignmentToIndex other assignment
      in case readAt (Values f) idx1 of
           Inl e \<Rightarrow> Inl e
         | Inr x \<Rightarrow> (case readAt (Values other) idx2 of
                      Inl e \<Rightarrow> Inl e
                    | Inr y \<Rightarrow> writeAt result idx (x * y)))"
| "multiplyHelper f other vars cardinality (v # rest) assignment result =
     fold (\<lambda>i acc. case acc of
                      Inl e \<Rightarrow> Inl e
                    | Inr res \<Rightarrow> multiplyHelper f other vars cardinality rest
                                  (fmupd v (int i) assignment) res)
          [0..<nat (readInt cardinality v)] (Inr result)"

text \<open>
  The merge of the two cardinality maps in \<^verbatim>\<open>Multiply\<close>: every key of the other factor's
  map is compared with the entry already present, whether or not it is a variable of
  either factor.
\<close>

fun mergeCardinality ::
  "(string, int) fmap \<Rightarrow> (string \<times> int) list \<Rightarrow> failure + (string, int) fmap" where
  "mergeCardinality newCard [] = Inr newCard"
| "mergeCardinality newCard ((k, v) # kvs) =
     (case fmlookup newCard k of
        Some existing \<Rightarrow>
          if existing \<noteq> v then Inl (Err (CardinalityMismatch k))
          else mergeCardinality (fmupd k v newCard) kvs
      | None \<Rightarrow> mergeCardinality (fmupd k v newCard) kvs)"

definition Multiply :: "DiscreteFactor \<Rightarrow> DiscreteFactor \<Rightarrow> failure + DiscreteFactor" where
  "Multiply f other =
     (let newVars = sort (remdups (Variables f @ Variables other)) in
      case mergeCardinality (Cardinality f) (sorted_list_of_fmap (Cardinality other)) of
        Inl e \<Rightarrow> Inl e
      | Inr newCard \<Rightarrow>
          (case makeSlice (tableSize newVars newCard) of
             Inl e \<Rightarrow> Inl e
           | Inr newValues \<Rightarrow>
               (case multiplyHelper f other newVars newCard newVars fmempty newValues of
                  Inl e \<Rightarrow> Inl e
                | Inr values \<Rightarrow> NewDiscreteFactor newVars newCard values)))"





text \<open>The factor of \<^verbatim>\<open>TestFactorReduce\<close> and of scenario 4 of the specification.\<close>

definition factorAB :: DiscreteFactor where
  "factorAB = \<lparr>Variables = [''A'', ''B''],
               Cardinality = fmap_of_list [(''A'', 2), (''B'', 2)],
               Values = [1 / 10, 2 / 10, 3 / 10, 4 / 10]\<rparr>"

text \<open>
  The invariants of a discrete factor: the variables are distinct, each has a declared
  cardinality that is not negative, and there is one value per joint assignment.
\<close>

definition validFactor :: "DiscreteFactor \<Rightarrow> bool" where
  "validFactor f \<longleftrightarrow>
     distinct (Variables f) \<and>
     list_all (\<lambda>v. case fmlookup (Cardinality f) v of None \<Rightarrow> False | Some n \<Rightarrow> 0 \<le> n)
              (Variables f) \<and>
     int (length (Values f)) = tableSize (Variables f) (Cardinality f)"

text \<open>
  The condition \<^verbatim>\<open>Multiply\<close> tests: no name has two different cardinalities in the two
  maps. An assignment is in range for a factor when it gives every variable a state
  below its cardinality.
\<close>

definition cardinalitiesAgree :: "DiscreteFactor \<Rightarrow> DiscreteFactor \<Rightarrow> bool" where
  "cardinalitiesAgree f other \<longleftrightarrow>
     fBall (fmdom (Cardinality other))
       (\<lambda>k. case fmlookup (Cardinality f) k of
              None \<Rightarrow> True
            | Some existing \<Rightarrow> fmlookup (Cardinality other) k = Some existing)"

definition inRange :: "DiscreteFactor \<Rightarrow> (string, int) fmap \<Rightarrow> bool" where
  "inRange f assignment \<longleftrightarrow>
     list_all (\<lambda>v. 0 \<le> readInt assignment v \<and> readInt assignment v < readInt (Cardinality f) v)
              (Variables f)"

text \<open>The factors of scenario 3 of the specification, and two factors whose cardinality
  maps disagree on a name that is a variable of neither.\<close>

definition factorA1 :: DiscreteFactor where
  "factorA1 = \<lparr>Variables = [''A''], Cardinality = fmap_of_list [(''A'', 2)],
               Values = [3 / 10, 7 / 10]\<rparr>"

definition factorA2 :: DiscreteFactor where
  "factorA2 = \<lparr>Variables = [''A''], Cardinality = fmap_of_list [(''A'', 2)],
               Values = [1 / 2, 1 / 2]\<rparr>"

definition factorX :: DiscreteFactor where
  "factorX = \<lparr>Variables = [''X''], Cardinality = fmap_of_list [(''X'', 2), (''Z'', 3)],
              Values = [1 / 4, 3 / 4]\<rparr>"

definition factorY :: DiscreteFactor where
  "factorY = \<lparr>Variables = [''Y''], Cardinality = fmap_of_list [(''Y'', 2), (''Z'', 4)],
              Values = [1 / 2, 1 / 2]\<rparr>"

section \<open>Package factors: Gaussian factors\<close>

text \<open>
  The fields are named after the Go fields; the variable list is \<open>GVariables\<close> because
  \<open>Variables\<close> is the field of the discrete factor.
\<close>

record GaussianFactor =
  GVariables :: "string list"
  Mean :: "(string, real) fmap"
  Covariance :: "(string, (string, real) fmap) fmap"

text \<open>\<^verbatim>\<open>m[k]\<close> and \<^verbatim>\<open>cov[k1][k2]\<close>: a missing key reads as 0, a missing row as the nil map.\<close>

definition readReal :: "(string, real) fmap \<Rightarrow> string \<Rightarrow> real" where
  "readReal m k = (case fmlookup m k of None \<Rightarrow> 0 | Some x \<Rightarrow> x)"

definition covAt :: "(string, (string, real) fmap) fmap \<Rightarrow> string \<Rightarrow> string \<Rightarrow> real" where
  "covAt cov k1 k2 = (case fmlookup cov k1 of None \<Rightarrow> 0 | Some row \<Rightarrow> readReal row k2)"

text \<open>The inner loop of the covariance check of \<^verbatim>\<open>NewGaussianFactor\<close>, for one row.\<close>

fun checkRow ::
  "(string, (string, real) fmap) fmap \<Rightarrow> string \<Rightarrow> (string, real) fmap \<Rightarrow> string list
     \<Rightarrow> error option" where
  "checkRow covariance v1 row [] = None"
| "checkRow covariance v1 row (v2 # rest) =
     (if fmlookup row v2 = None then Some (CovariancePairMissing v1 v2)
      else if \<bar>covAt covariance v1 v2 - covAt covariance v2 v1\<bar> > 1 / 10 ^ 9
      then Some CovarianceNotSymmetric
      else checkRow covariance v1 row rest)"

fun checkCovariance ::
  "(string, (string, real) fmap) fmap \<Rightarrow> string list \<Rightarrow> string list \<Rightarrow> error option" where
  "checkCovariance covariance variables [] = None"
| "checkCovariance covariance variables (v1 # rest) =
     (case fmlookup covariance v1 of
        None \<Rightarrow> Some (CovarianceMissing v1)
      | Some row \<Rightarrow>
          (case checkRow covariance v1 row variables of
             Some e \<Rightarrow> Some e
           | None \<Rightarrow> checkCovariance covariance variables rest))"

definition NewGaussianFactor ::
  "string list \<Rightarrow> (string, real) fmap \<Rightarrow> (string, (string, real) fmap) fmap
     \<Rightarrow> failure + GaussianFactor" where
  "NewGaussianFactor variables mean covariance =
     (if variables = [] then Inl (Err VariablesEmpty)
      else case find (\<lambda>v. fmlookup mean v = None) variables of
        Some v \<Rightarrow> Inl (Err (MeanMissing v))
      | None \<Rightarrow>
          (case checkCovariance covariance variables variables of
             Some e \<Rightarrow> Inl (Err e)
           | None \<Rightarrow> Inr \<lparr>GVariables = variables, Mean = mean, Covariance = covariance\<rparr>))"



definition GaussianMarginalize :: "GaussianFactor \<Rightarrow> string list \<Rightarrow> failure + GaussianFactor" where
  "GaussianMarginalize gf variables =
     (let newVars = filter (\<lambda>v. v \<notin> set variables) (GVariables gf) in
      if newVars = [] then Inl (Err CannotMarginalizeAll)
      else NewGaussianFactor newVars
             (fmap_of_list (map (\<lambda>v1. (v1, readReal (Mean gf) v1)) newVars))
             (fmap_of_list (map (\<lambda>v1. (v1, fmap_of_list
                      (map (\<lambda>v2. (v2, covAt (Covariance gf) v1 v2)) newVars))) newVars)))"

subsection \<open>Matrix inversion by Gaussian elimination\<close>





subsection \<open>Conditioning and multiplication\<close>


definition GaussianMultiply ::
  "GaussianFactor \<Rightarrow> GaussianFactor \<Rightarrow> failure + GaussianFactor" where
  "GaussianMultiply gf other =
     (let newVars = sort (remdups (GVariables gf @ GVariables other));
          disjoint = list_all (\<lambda>v. v \<notin> set (GVariables other)) (GVariables gf)
      in if disjoint
         then
           (let newMean = fmap_of_list (map (\<lambda>v. (v,
                  if fmlookup (Mean gf) v \<noteq> None then readReal (Mean gf) v
                  else readReal (Mean other) v)) newVars);
                newCov = fmap_of_list (map (\<lambda>v. (v, fmap_of_list (map (\<lambda>v2. (v2,
                  if fmlookup (Mean gf) v \<noteq> None
                  then (if fmlookup (Mean gf) v2 \<noteq> None then covAt (Covariance gf) v v2 else 0)
                  else (if fmlookup (Mean other) v2 \<noteq> None
                        then covAt (Covariance other) v v2 else 0))) newVars))) newVars)
            in NewGaussianFactor newVars newMean newCov)
         else Inl (Err DependentMultiplyNotImplemented))"

text \<open>
  What \<^verbatim>\<open>NewGaussianFactor\<close> accepts: at least one variable, a mean for every variable,
  a covariance entry for every pair of variables, symmetric within \<open>10\<^sup>-\<^sup>9\<close>.
\<close>

definition validGaussian :: "GaussianFactor \<Rightarrow> bool" where
  "validGaussian gf \<longleftrightarrow>
     NewGaussianFactor (GVariables gf) (Mean gf) (Covariance gf) = Inr gf"

text \<open>Two independent Gaussians, and one whose mean map also has an entry for \<open>Y\<close>.\<close>

definition gaussX :: GaussianFactor where
  "gaussX = \<lparr>GVariables = [''X''], Mean = fmap_of_list [(''X'', 0)],
             Covariance = fmap_of_list [(''X'', fmap_of_list [(''X'', 1)])]\<rparr>"

definition gaussY :: GaussianFactor where
  "gaussY = \<lparr>GVariables = [''Y''], Mean = fmap_of_list [(''Y'', 1)],
             Covariance = fmap_of_list [(''Y'', fmap_of_list [(''Y'', 2)])]\<rparr>"

definition gaussXstale :: GaussianFactor where
  "gaussXstale = \<lparr>GVariables = [''X''], Mean = fmap_of_list [(''X'', 0), (''Y'', 5)],
                  Covariance = fmap_of_list [(''X'', fmap_of_list [(''X'', 1)])]\<rparr>"


section \<open>Package models: fitting a linear-Gaussian CPD\<close>

record GaussianParams =
  ParamMean :: real
  ParamVariance :: real






subsection \<open>The normal equations\<close>




subsection \<open>The fit\<close>





section \<open>Package estimators: the conditional chi-square test\<close>

subsection \<open>The p-value\<close>

text \<open>
  The gamma routines over the reals. Both iterations run at most \<^verbatim>\<open>maxIter = 200\<close> times
  and leave early on convergence; the recursion is on the number of iterations left.
  \<^verbatim>\<open>logGamma\<close> calls itself once, on \<open>1 - x > 1/2\<close>, where it takes the Lanczos branch.
\<close>

definition lanczos :: "real \<Rightarrow> real" where
  "lanczos x0 =
     (let coef = [0.99999999999980993, 676.5203681218851, - 1259.1392167224028,
                  771.32342877765313, - 176.61502916214059, 12.507343278686905,
                  - 0.13857109526572012, 9.9843695780195716 / 10 ^ 6,
                  1.5056327351493116 / 10 ^ 7];
          x = x0 - 1;
          base = x + 7 + 0.5;
          total = fold (\<lambda>i s. s + coef ! i / (x + real i)) [1..<length coef] (coef ! 0)
      in ln total + ln (sqrt (2 * pi)) - base + (x + 0.5) * ln base)"

definition logGamma :: "real \<Rightarrow> real" where
  "logGamma x = (if x < 0.5 then ln pi - ln (sin (pi * x)) - lanczos (1 - x) else lanczos x)"

primrec seriesLoop :: "nat \<Rightarrow> real \<Rightarrow> real \<Rightarrow> real \<Rightarrow> real \<Rightarrow> real" where
  "seriesLoop 0 x ap del sm = sm"
| "seriesLoop (Suc left) x ap del sm =
     (let ap = ap + 1;
          del = del * (x / ap);
          sm = sm + del
      in if \<bar>del\<bar> < \<bar>sm\<bar> * (1 / 10 ^ 10) then sm
         else seriesLoop left x ap del sm)"

definition gammaSeriesExpansion :: "real \<Rightarrow> real \<Rightarrow> real" where
  "gammaSeriesExpansion a x =
     seriesLoop 200 x a (1 / a) (1 / a) * exp (- x + a * ln x - logGamma a)"

primrec fractionLoop :: "nat \<Rightarrow> nat \<Rightarrow> real \<Rightarrow> real \<Rightarrow> real \<Rightarrow> real \<Rightarrow> real \<Rightarrow> real" where
  "fractionLoop 0 i a b c d h = h"
| "fractionLoop (Suc left) i a b c d h =
     (let an = - real i * (real i - a);
          b = b + 2;
          d = an * d + b;
          d = (if \<bar>d\<bar> < 1 / 10 ^ 30 then 1 / 10 ^ 30 else d);
          c = b + an / c;
          c = (if \<bar>c\<bar> < 1 / 10 ^ 30 then 1 / 10 ^ 30 else c);
          d = 1 / d;
          del = d * c;
          h = h * del
      in if \<bar>del - 1\<bar> < 1 / 10 ^ 10 then h
         else fractionLoop left (i + 1) a b c d h)"

definition gammaContinuedFraction :: "real \<Rightarrow> real \<Rightarrow> real" where
  "gammaContinuedFraction a x =
     (let b = x + 1 - a;
          c = 1 / (1 / 10 ^ 30);
          d = 1 / b
      in exp (- x + a * ln x - logGamma a) * fractionLoop 200 1 a b c d d)"

definition regularizedGammaP :: "real \<Rightarrow> real \<Rightarrow> real" where
  "regularizedGammaP a x =
     (if x < 0 \<or> a \<le> 0 then 0
      else if x = 0 then 0
      else if x < a + 1 then gammaSeriesExpansion a x
      else 1 - gammaContinuedFraction a x)"

definition chiSquarePValue :: "real \<Rightarrow> real \<Rightarrow> real" where
  "chiSquarePValue chiSquare df =
     (if df \<le> 0 then 1
      else if chiSquare > 1000 then 0
      else if chiSquare < 0.001 then 1
      else
        (let pValue = 1 - regularizedGammaP (df / 2) (chiSquare / 2);
             pValue = (if pValue > 1 then 1 else pValue);
             pValue = (if pValue < 0 then 0 else pValue)
         in pValue))"

subsection \<open>The contingency table\<close>

text \<open>
  \<^verbatim>\<open>counts\<close> is indexed \<open>[x state][y state][stratum]\<close> and \<^verbatim>\<open>totalCounts\<close> by stratum; the
  counts are \<^verbatim>\<open>float64\<close> values. The three nested \<^verbatim>\<open>make\<close> calls panic on a negative
  length when they are reached.
\<close>

definition emptyCounts ::
  "int \<Rightarrow> int \<Rightarrow> int \<Rightarrow> failure + real list list list \<times> real list" where
  "emptyCounts xCard yCard zCard =
     (if xCard < 0 \<or> (0 < xCard \<and> yCard < 0) \<or> zCard < 0 then Inl (Panic NegativeLength)
      else Inr (replicate (nat xCard) (replicate (nat yCard) (replicate (nat zCard) 0)),
                replicate (nat zCard) 0))"

text \<open>
  One sample. A sample without a value for \<open>x\<close>, \<open>y\<close> or a conditioning variable is
  skipped; otherwise its stratum is the stride index of its conditioning values, and
  the increment panics when one of the three indices is outside the table.
\<close>

definition countSample ::
  "string \<Rightarrow> string \<Rightarrow> string list \<Rightarrow> (string, int) fmap \<Rightarrow> (string, int) fmap
     \<Rightarrow> real list list list \<times> real list \<Rightarrow> failure + real list list list \<times> real list" where
  "countSample x y z cardinality sample s =
     (case (fmlookup sample x, fmlookup sample y) of
        (Some xVal, Some yVal) \<Rightarrow>
          if \<not> list_all (\<lambda>zVar. fmlookup sample zVar \<noteq> None) z then Inr s
          else
            (let zIdx = assignmentToIndex z sample cardinality;
                 counts = fst s;
                 totalCounts = snd s
             in if xVal < 0 \<or> int (length counts) \<le> xVal then Inl (Panic IndexOutOfRange)
                else if yVal < 0 \<or> int (length (counts ! nat xVal)) \<le> yVal
                then Inl (Panic IndexOutOfRange)
                else if zIdx < 0 \<or> int (length (counts ! nat xVal ! nat yVal)) \<le> zIdx
                then Inl (Panic IndexOutOfRange)
                else if int (length totalCounts) \<le> zIdx then Inl (Panic IndexOutOfRange)
                else Inr (counts[nat xVal := (counts ! nat xVal)
                                   [nat yVal := (counts ! nat xVal ! nat yVal)
                                      [nat zIdx := counts ! nat xVal ! nat yVal ! nat zIdx + 1]]],
                          totalCounts[nat zIdx := totalCounts ! nat zIdx + 1]))
      | _ \<Rightarrow> Inr s)"

definition countTable ::
  "(string, int) fmap list \<Rightarrow> string \<Rightarrow> string \<Rightarrow> string list \<Rightarrow> (string, int) fmap
     \<Rightarrow> failure + real list list list \<times> real list" where
  "countTable data x y z cardinality =
     (case emptyCounts (readInt cardinality x) (readInt cardinality y) (tableSize z cardinality) of
        Inl e \<Rightarrow> Inl e
      | Inr s0 \<Rightarrow>
          fold (\<lambda>sample acc. case acc of
                                Inl e \<Rightarrow> Inl e
                              | Inr s \<Rightarrow> countSample x y z cardinality sample s)
               data (Inr s0))"

subsection \<open>The statistic\<close>

definition xMarginal :: "real list list list \<Rightarrow> nat \<Rightarrow> nat \<Rightarrow> nat \<Rightarrow> real" where
  "xMarginal counts yCard k i = fold (\<lambda>j s. s + counts ! i ! j ! k) [0..<yCard] 0"

definition yMarginal :: "real list list list \<Rightarrow> nat \<Rightarrow> nat \<Rightarrow> nat \<Rightarrow> real" where
  "yMarginal counts xCard k j = fold (\<lambda>i s. s + counts ! i ! j ! k) [0..<xCard] 0"

text \<open>What stratum \<open>k\<close> adds to the running statistic, cell by cell.\<close>

definition addStratum ::
  "real list list list \<Rightarrow> real list \<Rightarrow> nat \<Rightarrow> nat \<Rightarrow> nat \<Rightarrow> real \<Rightarrow> real" where
  "addStratum counts totalCounts xCard yCard k chiSquare =
     fold (\<lambda>i chi.
        fold (\<lambda>j chi.
           (let expected = xMarginal counts yCard k i * yMarginal counts xCard k j
                             / totalCounts ! k
            in if expected > 0
               then chi + (counts ! i ! j ! k - expected) ^ 2 / expected
               else chi))
          [0..<yCard] chi)
       [0..<xCard] chiSquare"

definition chiSquareStatistic ::
  "real list list list \<Rightarrow> real list \<Rightarrow> nat \<Rightarrow> nat \<Rightarrow> nat \<Rightarrow> real" where
  "chiSquareStatistic counts totalCounts xCard yCard zCard =
     fold (\<lambda>k chiSquare.
             if totalCounts ! k < 5 then chiSquare
             else addStratum counts totalCounts xCard yCard k chiSquare)
          [0..<zCard] 0"

definition ChiSquareTest ::
  "(string, int) fmap list \<Rightarrow> string \<Rightarrow> string \<Rightarrow> string list \<Rightarrow> (string, int) fmap
     \<Rightarrow> failure + real \<times> real" where
  "ChiSquareTest data x y z cardinality =
     (let zCard = tableSize z cardinality;
          xCard = readInt cardinality x;
          yCard = readInt cardinality y
      in case countTable data x y z cardinality of
           Inl e \<Rightarrow> Inl e
         | Inr s \<Rightarrow>
             (let chiSquare = chiSquareStatistic (fst s) (snd s) (nat xCard) (nat yCard) (nat zCard);
                  df = real_of_int ((xCard - 1) * (yCard - 1) * zCard)
              in Inr (chiSquare, chiSquarePValue chiSquare df)))"

text \<open>Four samples over two binary variables, conditioned on a third: two strata of two
  samples each.\<close>

definition sparseData :: "(string, int) fmap list" where
  "sparseData =
     [fmap_of_list [(''A'', 0), (''B'', 0), (''C'', 0)],
      fmap_of_list [(''A'', 1), (''B'', 1), (''C'', 0)],
      fmap_of_list [(''A'', 0), (''B'', 1), (''C'', 1)],
      fmap_of_list [(''A'', 1), (''B'', 0), (''C'', 1)]]"

definition binaryCards :: "(string, int) fmap" where
  "binaryCards = fmap_of_list [(''A'', 2), (''B'', 2), (''C'', 2)]"

section \<open>Properties of the DAG\<close>

lemma innerMap_fmupd: "innerMap (fmupd k v m) k' = (if k = k' then v else innerMap m k')"
  by (simp add: innerMap_def)

lemma innerMap_fmempty: "innerMap fmempty k = {||}"
  by (simp add: innerMap_def)

lemma innerMap_outside: "k |\<notin>| fmdom m \<Longrightarrow> innerMap m k = {||}"
  by (simp add: innerMap_def fmdom_notD)

lemma innerMap_member_dom: "x |\<in>| innerMap m k \<Longrightarrow> k |\<in>| fmdom m"
  using innerMap_outside [of k m] by auto

lemma innerMap_lookup: "fmlookup m k = Some s \<Longrightarrow> innerMap m k = s"
  by (simp add: innerMap_def)

lemma wfDAG_NewDAG: "wfDAG NewDAG"
  by (simp add: wfDAG_def NewDAG_def innerMap_fmempty)

lemma wfDAG_AddNode: "wfDAG d \<Longrightarrow> wfDAG (AddNode d node)"
  unfolding wfDAG_def AddNode_def
  by (auto simp: innerMap_fmupd dest: innerMap_member_dom)

lemma nodes_AddNode: "nodes (AddNode d node) = finsert node (nodes d)"
  by (auto simp: AddNode_def)

lemma AddNode_present: "node |\<in>| nodes d \<Longrightarrow> AddNode d node = d"
  by (simp add: AddNode_def)

lemma parents_AddNode: "wfDAG d \<Longrightarrow> innerMap (parents (AddNode d node)) k = innerMap (parents d) k"
  by (auto simp: AddNode_def wfDAG_def innerMap_fmupd innerMap_outside)

lemma wfDAG_edge_nodes:
  assumes "wfDAG d" "c |\<in>| innerMap (edges d) p"
  shows "p |\<in>| nodes d" "c |\<in>| nodes d"
proof -
  show "p |\<in>| nodes d" using assms innerMap_member_dom [of c "edges d" p] by (simp add: wfDAG_def)
  have "p |\<in>| innerMap (parents d) c" using assms by (simp add: wfDAG_def)
  then show "c |\<in>| nodes d" using assms(1) innerMap_member_dom [of p "parents d" c] by (simp add: wfDAG_def)
qed

lemma AddEdge_success:
  assumes "parent |\<in>| fmdom (edges d1)" "child |\<in>| fmdom (parents d1)"
  obtains cs ps where "fmlookup (edges d1) parent = Some cs" "fmlookup (parents d1) child = Some ps"
  using assms by (meson fmdomE)

lemma wfDAG_AddEdge: 
  assumes "wfDAG d" shows "wfDAG (fst (AddEdge d parent child))"
proof -
  define d1 where "d1 = AddNode (AddNode d parent) child"
  have wf1: "wfDAG d1" using assms by (simp add: d1_def wfDAG_AddNode)
  have n1: "parent |\<in>| nodes d1" "child |\<in>| nodes d1" by (simp_all add: d1_def nodes_AddNode)
  then obtain cs ps where cs: "fmlookup (edges d1) parent = Some cs" and ps: "fmlookup (parents d1) child = Some ps"
    using wf1 AddEdge_success [of parent d1 child] unfolding wfDAG_def by auto
  show ?thesis
  proof (cases "wouldCreateCycle d1 parent child")
    case True
    then show ?thesis using wf1 by (simp add: AddEdge_def d1_def [symmetric])
  next
    case False
    define d3 where "d3 = d1\<lparr>edges := fmupd parent (finsert child cs) (edges d1),
                              parents := fmupd child (finsert parent ps) (parents d1)\<rparr>"
    have res: "fst (AddEdge d parent child) = d3"
      using False cs ps by (simp add: AddEdge_def d1_def [symmetric] d3_def)
    have E: "c |\<in>| innerMap (edges d3) p \<longleftrightarrow> c |\<in>| innerMap (edges d1) p \<or> (p = parent \<and> c = child)" for p c
      using cs by (auto simp: d3_def innerMap_fmupd innerMap_lookup)
    have P: "p |\<in>| innerMap (parents d3) c \<longleftrightarrow> p |\<in>| innerMap (parents d1) c \<or> (p = parent \<and> c = child)" for p c
      using ps by (auto simp: d3_def innerMap_fmupd innerMap_lookup)
    have "fmdom (edges d3) = nodes d3" "fmdom (parents d3) = nodes d3"
      using wf1 n1 by (auto simp: d3_def wfDAG_def)
    moreover have "c |\<in>| innerMap (edges d3) p \<longleftrightarrow> p |\<in>| innerMap (parents d3) c" for p c
      using wf1 by (simp add: E P wfDAG_def)
    ultimately have "wfDAG d3" by (simp add: wfDAG_def)
    then show ?thesis by (simp add: res)
  qed
qed

lemma RemoveEdge_fields:
  "nodes (RemoveEdge d parent child) = nodes d"
  "fmdom (edges (RemoveEdge d parent child)) = fmdom (edges d)"
  "fmdom (parents (RemoveEdge d parent child)) = fmdom (parents d)"
  "innerMap (edges (RemoveEdge d parent child)) p =
     (if p = parent then innerMap (edges d) p |-| {|child|} else innerMap (edges d) p)"
  "innerMap (parents (RemoveEdge d parent child)) c =
     (if c = child then innerMap (parents d) c |-| {|parent|} else innerMap (parents d) c)"
proof -
  show "nodes (RemoveEdge d parent child) = nodes d"
    by (simp add: RemoveEdge_def Let_def split: option.splits)
  show "fmdom (edges (RemoveEdge d parent child)) = fmdom (edges d)"
    by (auto simp: RemoveEdge_def Let_def split: option.splits intro: fmdomI)
  show "fmdom (parents (RemoveEdge d parent child)) = fmdom (parents d)"
    by (auto simp: RemoveEdge_def Let_def split: option.splits intro: fmdomI)
  show "innerMap (edges (RemoveEdge d parent child)) p =
     (if p = parent then innerMap (edges d) p |-| {|child|} else innerMap (edges d) p)"
    by (simp add: RemoveEdge_def Let_def innerMap_def split: option.splits)
  show "innerMap (parents (RemoveEdge d parent child)) c =
     (if c = child then innerMap (parents d) c |-| {|parent|} else innerMap (parents d) c)"
    by (simp add: RemoveEdge_def Let_def innerMap_def split: option.splits)
qed

lemma wfDAG_RemoveEdge: 
  assumes "wfDAG d" shows "wfDAG (RemoveEdge d parent child)"
proof -
  have "c |\<in>| innerMap (edges (RemoveEdge d parent child)) p
          \<longleftrightarrow> p |\<in>| innerMap (parents (RemoveEdge d parent child)) c" for p c
    using assms by (auto simp: RemoveEdge_fields wfDAG_def)
  then show ?thesis using assms by (simp add: wfDAG_def RemoveEdge_fields)
qed

lemma reachableDAG_wf: "reachableDAG d \<Longrightarrow> wfDAG d"
  by (induction rule: reachableDAG.induct)
     (simp_all add: wfDAG_NewDAG wfDAG_AddNode wfDAG_AddEdge wfDAG_RemoveEdge)

lemma ancestorsHelper_sound:
  "x |\<in>| ancestorsHelper d pending visited \<Longrightarrow>
     x |\<in>| visited \<or> x \<in> set pending \<or> (\<exists>n. x |\<in>| innerMap (parents d) n)"
  by (induction d pending visited rule: ancestorsHelper.induct) (auto split: if_splits)

lemma ancestorsHelper_no_parents:
  "innerMap (parents d) node = {||} \<Longrightarrow> ancestorsHelper d [node] {||} = {|node|}"
  by (simp add: sorted_list_of_fset.rep_eq)

lemma wouldCreateCycle_nodes:
  assumes "wfDAG d" "wouldCreateCycle d parent child"
  shows "parent |\<in>| nodes d \<and> child |\<in>| nodes d"
proof -
  have "child |\<in>| ancestorsHelper d [parent] {||} |-| {|parent|}"
    using assms(2) unfolding wouldCreateCycle_def Ancestors_def
    by (simp only: sorted_list_of_fset_simps)
  then have mem: "child |\<in>| ancestorsHelper d [parent] {||}" and ne: "child \<noteq> parent"
    by simp_all
  have "innerMap (parents d) parent \<noteq> {||}"
  proof
    assume "innerMap (parents d) parent = {||}"
    then have "ancestorsHelper d [parent] {||} = {|parent|}"
      by (rule ancestorsHelper_no_parents)
    with mem ne show False by simp
  qed
  then have "parent |\<in>| fmdom (parents d)"
    using innerMap_outside [of parent "parents d"] by blast
  then have p: "parent |\<in>| nodes d"
    using assms(1) by (simp add: wfDAG_def)
  have "child |\<in>| {||} \<or> child \<in> set [parent] \<or> (\<exists>n. child |\<in>| innerMap (parents d) n)"
    using mem by (rule ancestorsHelper_sound)
  then obtain n where "child |\<in>| innerMap (parents d) n"
    using ne by auto
  then have "n |\<in>| innerMap (edges d) child" using assms(1) by (simp add: wfDAG_def)
  then have "child |\<in>| nodes d" using wfDAG_edge_nodes(1) [OF assms(1)] by blast
  with p show ?thesis by simp
qed

lemma ancestorsHelper_cong:
  assumes "\<And>k. innerMap (parents d') k = innerMap (parents d) k"
  shows "ancestorsHelper d' pending visited = ancestorsHelper d pending visited"
  using assms
  by (induction d pending visited rule: ancestorsHelper.induct) simp_all

lemma wouldCreateCycle_AddNode:
  assumes "wfDAG d"
  shows "wouldCreateCycle (AddNode d node) parent child = wouldCreateCycle d parent child"
  using ancestorsHelper_cong [of "AddNode d node" d "[parent]" "{||}"] parents_AddNode [OF assms]
  by (simp add: wouldCreateCycle_def Ancestors_def)

text \<open>
  Claim C7. If \<^verbatim>\<open>AddEdge(parent, child)\<close> on a DAG built through the interface returns
  the cycle error, the node set, the child-edge map and the parent map are what they were
  before the call: the two \<^verbatim>\<open>AddNode\<close> calls that run before the cycle check found
  both endpoints present already.
\<close>

theorem AddEdge_failure_unchanged:
  assumes "reachableDAG d"
    and "snd (AddEdge d parent child) = Some (Err (CycleOnAddEdge parent child))"
  shows "nodes (fst (AddEdge d parent child)) = nodes d
       \<and> edges (fst (AddEdge d parent child)) = edges d
       \<and> parents (fst (AddEdge d parent child)) = parents d"
proof -
  define d1 where "d1 = AddNode (AddNode d parent) child"
  have wf: "wfDAG d" using assms(1) by (rule reachableDAG_wf)
  have cyc: "wouldCreateCycle d1 parent child"
    using assms(2) by (auto simp: AddEdge_def d1_def [symmetric] Let_def split: if_splits option.splits)
  then have res: "fst (AddEdge d parent child) = d1"
    by (simp add: AddEdge_def d1_def [symmetric])
  have "wouldCreateCycle d parent child"
    using cyc wf by (simp add: d1_def wouldCreateCycle_AddNode wfDAG_AddNode)
  then have "parent |\<in>| nodes d" "child |\<in>| nodes d"
    using wouldCreateCycle_nodes [OF wf] by simp_all
  then have "d1 = d" by (simp add: d1_def AddNode_present)
  then show ?thesis by (simp add: res)
qed

theorem AddEdge_failure_unchanged_witness:
  "reachableDAG chainABC
   \<and> snd (AddEdge chainABC ''C'' ''A'') = Some (Err (CycleOnAddEdge ''C'' ''A''))
   \<and> nodes (fst (AddEdge chainABC ''C'' ''A'')) = nodes chainABC
   \<and> edges (fst (AddEdge chainABC ''C'' ''A'')) = edges chainABC
   \<and> parents (fst (AddEdge chainABC ''C'' ''A'')) = parents chainABC"
proof -
  have r: "reachableDAG chainABC"
    unfolding chainABC_def by (intro reachableDAG.intros)
  have e: "snd (AddEdge chainABC ''C'' ''A'') = Some (Err (CycleOnAddEdge ''C'' ''A''))"
    by code_simp
  show ?thesis using r e AddEdge_failure_unchanged [OF r e] by simp
qed

subsection \<open>Topological sort\<close>

lemma degreeOf_fmupd: "degreeOf (fmupd k n m) k' = (if k = k' then n else degreeOf m k')"
  by (simp add: degreeOf_def)

lemma fold_visitChild:
  "distinct cs \<Longrightarrow>
     degreeOf (fst (fold visitChild cs (m, q))) v = degreeOf m v - (if v \<in> set cs then 1 else 0)
   \<and> snd (fold visitChild cs (m, q)) = q @ filter (\<lambda>c. degreeOf m c = 1) cs"
proof (induction cs arbitrary: m q)
  case Nil
  show ?case by simp
next
  case (Cons c cs)
  define m' where "m' = fmupd c (degreeOf m c - 1) m"
  define q' where "q' = (if degreeOf m c = 1 then q @ [c] else q)"
  have vc: "visitChild c (m, q) = (m', q')"
    by (simp add: visitChild_def m'_def q'_def Let_def degreeOf_fmupd)
  have same: "degreeOf m' x = degreeOf m x" if "x \<in> set cs" for x
    using that Cons.prems by (auto simp: m'_def degreeOf_fmupd)
  have f: "filter (\<lambda>c. degreeOf m' c = 1) cs = filter (\<lambda>c. degreeOf m c = 1) cs"
    by (rule filter_cong) (simp_all add: same)
  have IH: "degreeOf (fst (fold visitChild cs (m', q'))) v = degreeOf m' v - (if v \<in> set cs then 1 else 0)
   \<and> snd (fold visitChild cs (m', q')) = q' @ filter (\<lambda>c. degreeOf m' c = 1) cs"
    using Cons.IH [of m' q'] Cons.prems by simp
  have "degreeOf m' v - (if v \<in> set cs then 1 else 0) = degreeOf m v - (if v \<in> set (c # cs) then 1 else 0)"
    using Cons.prems by (auto simp: m'_def degreeOf_fmupd)
  moreover have "q' @ filter (\<lambda>c. degreeOf m c = 1) cs = q @ filter (\<lambda>c. degreeOf m c = 1) (c # cs)"
    by (simp add: q'_def)
  ultimately show ?case using IH by (simp add: vc f)
qed


lemma kahnInv_step:
  assumes wf: "wfDAG d"
    and inv: "kahnInv d queue result m"
    and srt: "sort queue = node # rest"
  shows "kahnInv d
           (snd (fold visitChild (sorted_list_of_fset (innerMap (edges d) node)) (m, rest)))
           (result @ [node])
           (fst (fold visitChild (sorted_list_of_fset (innerMap (edges d) node)) (m, rest)))"
proof -
  define P where "P = (\<lambda>v. fset (innerMap (parents d) v))"
  define cs where "cs = sorted_list_of_fset (innerMap (edges d) node)"
  define new where "new = filter (\<lambda>c. degreeOf m c = 1) cs"
  define m' where "m' = fst (fold visitChild cs (m, rest))"
  have dcs: "distinct cs" by (simp add: cs_def sorted_list_of_fset.rep_eq)
  have scs: "set cs = fset (innerMap (edges d) node)" by (simp add: cs_def sorted_list_of_fset.rep_eq)
  have child_iff: "c \<in> set cs \<longleftrightarrow> node \<in> P c" for c
    using wf by (simp add: scs P_def wfDAG_def)
  have q': "snd (fold visitChild cs (m, rest)) = rest @ new"
    using fold_visitChild [OF dcs, of m rest] by (simp add: new_def)
  have deg': "degreeOf m' v = degreeOf m v - (if node \<in> P v then 1 else 0)" for v
    using fold_visitChild [OF dcs, of m rest v] by (simp add: m'_def child_iff)
  have dist: "distinct (result @ queue)"
    and sub: "set (result @ queue) \<subseteq> fset (nodes d)"
    and deg: "\<And>v. degreeOf m v = int (card (P v - set result))"
    and ord: "\<And>i. i < length result \<Longrightarrow> P (result ! i) \<subseteq> set (take i result)"
    and rdy: "\<And>v. v \<in> set queue \<Longrightarrow> P v \<subseteq> set result"
    using inv by (simp_all add: kahnInv_def P_def)
  have sq: "set queue = insert node (set rest)"
    using srt by (metis list.simps(15) set_sort)
  have dq: "distinct (node # rest)"
    using srt dist by (metis distinct_append distinct_sort)
  have node_q: "node \<in> set queue" by (simp add: sq)
  have node_r: "node \<notin> set result" using dist node_q by auto
  have node_P: "P node \<subseteq> set result" using rdy node_q by simp
  have in_result: "P v \<subseteq> set result" if vr: "v \<in> set result" for v
  proof -
    obtain i where "i < length result" "result ! i = v"
      using vr by (auto simp: in_set_conv_nth)
    then have "P v \<subseteq> set (take i result)" using ord by auto
    then show ?thesis using set_take_subset [of i result] by blast
  qed
  have new_fresh: "c \<notin> set result \<and> c \<noteq> node \<and> c \<notin> set rest" if "c \<in> set new" for c
  proof -
    have "node \<in> P c" using that by (simp add: new_def child_iff)
    then have "\<not> P c \<subseteq> set result" using node_r by auto
    then show ?thesis using in_result [of c] node_P rdy [of c] by (auto simp: sq)
  qed
  have fin: "finite (P v)" for v by (simp add: P_def)
  have deg_new: "degreeOf m' v = int (card (P v - set (result @ [node])))" for v
  proof (cases "node \<in> P v")
    case True
    have "P v - set (result @ [node]) = (P v - set result) - {node}" by auto
    moreover have "node \<in> P v - set result" using True node_r by simp
    ultimately have "card (P v - set (result @ [node])) = card (P v - set result) - 1"
      "0 < card (P v - set result)"
      using fin [of v] by (auto simp: card_gt_0_iff)
    then show ?thesis using True by (simp add: deg' deg)
  next
    case False
    then have "P v - set (result @ [node]) = P v - set result" by auto
    then show ?thesis using False by (simp add: deg' deg)
  qed
  have "distinct ((result @ [node]) @ rest @ new)"
  proof -
    have "distinct new" by (simp add: new_def dcs)
    moreover have "distinct result" "distinct rest" "node \<notin> set rest" "set result \<inter> set rest = {}"
      using dist dq by (auto simp: sq)
    ultimately show ?thesis using node_r new_fresh by auto
  qed
  moreover have "set ((result @ [node]) @ rest @ new) \<subseteq> fset (nodes d)"
  proof -
    have "c |\<in>| nodes d" if "c \<in> set new" for c
    proof -
      have "c |\<in>| innerMap (edges d) node" using that by (simp add: new_def scs)
      then show ?thesis by (rule wfDAG_edge_nodes(2) [OF wf])
    qed
    then show ?thesis using sub by (auto simp: sq)
  qed
  moreover have "\<forall>i<length (result @ [node]).
      P ((result @ [node]) ! i) \<subseteq> set (take i (result @ [node]))"
  proof (intro allI impI)
    fix i assume "i < length (result @ [node])"
    then consider "i < length result" | "i = length result" by fastforce
    then show "P ((result @ [node]) ! i) \<subseteq> set (take i (result @ [node]))"
    proof cases
      case 1
      then show ?thesis using ord [of i] by (simp add: nth_append)
    next
      case 2
      then show ?thesis using node_P by simp
    qed
  qed
  moreover have "\<forall>v\<in>set (rest @ new). P v \<subseteq> set (result @ [node])"
  proof
    fix v assume "v \<in> set (rest @ new)"
    then consider "v \<in> set rest" | "v \<in> set new" by auto
    then show "P v \<subseteq> set (result @ [node])"
    proof cases
      case 1
      then show ?thesis using rdy [of v] by (auto simp: sq)
    next
      case 2
      then have "degreeOf m v = 1" "node \<in> P v" by (simp_all add: new_def child_iff)
      then have "degreeOf m' v = 0" by (simp add: deg')
      then have "card (P v - set (result @ [node])) = 0" using deg_new [of v] by simp
      then have "P v - set (result @ [node]) = {}" using fin [of v] by simp
      then show ?thesis by blast
    qed
  qed
  ultimately have "kahnInv d (rest @ new) (result @ [node]) m'"
    using deg_new unfolding kahnInv_def P_def by blast
  then have "kahnInv d (snd (fold visitChild cs (m, rest))) (result @ [node])
               (fst (fold visitChild cs (m, rest)))"
    by (simp only: q' m'_def)
  then show ?thesis by (simp only: cs_def)
qed

lemma kahnLoop_parentsFirst:
  assumes "wfDAG d" "kahnInv d queue result m"
  shows "parentsFirst d (kahnLoop d queue result m)"
  using assms
proof (induction d queue result m rule: kahnLoop.induct)
  case (1 d queue result inDegree)
  show ?case
  proof (cases "sort queue")
    case Nil
    then have "kahnLoop d queue result inDegree = result"
      by (subst kahnLoop.simps) simp
    moreover have "parentsFirst d result"
      using "1.prems"(2) by (simp add: kahnInv_def parentsFirst_def)
    ultimately show ?thesis by simp
  next
    case (Cons node rest)
    define s where "s = fold visitChild (sorted_list_of_fset (innerMap (edges d) node)) (inDegree, rest)"
    have "kahnLoop d queue result inDegree = kahnLoop d (snd s) (result @ [node]) (fst s)"
      by (subst kahnLoop.simps) (simp add: Cons s_def Let_def)
    moreover have "kahnInv d (snd s) (result @ [node]) (fst s)"
      unfolding s_def using "1.prems" Cons by (rule kahnInv_step)
    then have "parentsFirst d (kahnLoop d (snd s) (result @ [node]) (fst s))"
      using "1.IH" [OF Cons s_def "1.prems"(1)] by simp
    ultimately show ?thesis by simp
  qed
qed

lemma kahnInv_initial:
  assumes wf: "wfDAG d"
  defines "inDegree \<equiv> fmap_of_list
            (map (\<lambda>node. (node, int (fcard (innerMap (parents d) node))))
                 (sorted_list_of_fset (nodes d)))"
  shows "kahnInv d (filter (\<lambda>node. degreeOf inDegree node = 0)
                    (sorted_list_of_fset (fmdom inDegree))) [] inDegree"
proof -
  have look: "fmlookup inDegree v =
       (if v |\<in>| nodes d then Some (int (fcard (innerMap (parents d) v))) else None)" for v
    by (simp add: inDegree_def fmlookup_of_list map_of_map_restrict restrict_map_def
                  sorted_list_of_fset.rep_eq)
  have dom: "fmdom inDegree = nodes d"
    by (rule fset_eqI) (simp add: fmlookup_dom_iff look)
  have deg: "degreeOf inDegree v = int (card (fset (innerMap (parents d) v)))" for v
  proof (cases "v |\<in>| nodes d")
    case True
    then show ?thesis by (simp add: degreeOf_def look fcard.rep_eq)
  next
    case False
    then have "innerMap (parents d) v = {||}"
      using wf by (simp add: wfDAG_def innerMap_outside)
    then show ?thesis using False by (simp add: degreeOf_def look)
  qed
  have "fset (innerMap (parents d) v) = {}" if "degreeOf inDegree v = 0" for v
    using that by (simp add: deg)
  then show ?thesis
    by (simp add: kahnInv_def deg dom sorted_list_of_fset.rep_eq subset_iff)
qed

lemma TopologicalSort_parentsFirst:
  assumes "wfDAG d" "TopologicalSort d = Inr order"
  shows "parentsFirst d order \<and> length order = card (fset (nodes d))"
proof -
  define inDegree where "inDegree = fmap_of_list
            (map (\<lambda>node. (node, int (fcard (innerMap (parents d) node))))
                 (sorted_list_of_fset (nodes d)))"
  define queue where "queue = filter (\<lambda>node. degreeOf inDegree node = 0)
                    (sorted_list_of_fset (fmdom inDegree))"
  have "order = kahnLoop d queue [] inDegree" "length order = fcard (nodes d)"
    using assms(2)
    by (simp_all add: TopologicalSort_def inDegree_def [symmetric] queue_def [symmetric] Let_def
             split: if_splits)
  moreover have "parentsFirst d (kahnLoop d queue [] inDegree)"
    unfolding queue_def inDegree_def
    by (rule kahnLoop_parentsFirst [OF assms(1) kahnInv_initial [OF assms(1)]])
  ultimately show ?thesis by (simp add: fcard.rep_eq)
qed

text \<open>
  Claim C8. Whenever \<^verbatim>\<open>TopologicalSort\<close> returns an ordering without error, every edge
  \<open>u \<rightarrow> v\<close> of the DAG has \<open>u\<close> at a strictly smaller position than \<open>v\<close>; the
  ordering has no repetition, so the positions are unique.
\<close>

theorem TopologicalSort_respects_edges:
  assumes "reachableDAG d"
    and "TopologicalSort d = Inr order"
    and "HasEdge d u v"
  shows "distinct order \<and> (\<exists>i j. i < j \<and> j < length order \<and> order ! i = u \<and> order ! j = v)"
proof -
  have wf: "wfDAG d" using assms(1) by (rule reachableDAG_wf)
  have pf: "parentsFirst d order" and len: "length order = card (fset (nodes d))"
    using TopologicalSort_parentsFirst [OF wf assms(2)] by simp_all
  have dist: "distinct order" and sub: "set order \<subseteq> fset (nodes d)"
    and ord: "\<And>i. i < length order \<Longrightarrow> fset (innerMap (parents d) (order ! i)) \<subseteq> set (take i order)"
    using pf by (simp_all add: parentsFirst_def)
  have "card (set order) = card (fset (nodes d))"
    using dist len by (simp add: distinct_card)
  then have all: "set order = fset (nodes d)"
    using sub by (simp add: card_subset_eq)
  have e: "v |\<in>| innerMap (edges d) u"
    using assms(3) by (auto simp: HasEdge_def innerMap_def split: option.splits)
  then have "v |\<in>| nodes d" by (rule wfDAG_edge_nodes(2) [OF wf])
  then have "v \<in> set order" using all by simp
  then obtain j where j: "j < length order" "order ! j = v"
    by (auto simp: in_set_conv_nth)
  have "u |\<in>| innerMap (parents d) v" using e wf by (simp add: wfDAG_def)
  then have "u \<in> set (take j order)" using ord [OF j(1)] j(2) by auto
  then obtain i where "i < length (take j order)" "take j order ! i = u"
    by (auto simp: in_set_conv_nth)
  then have "i < j" "order ! i = u" using j(1) by simp_all
  then show ?thesis using dist j by blast
qed

theorem TopologicalSort_respects_edges_witness:
  "reachableDAG diamond
   \<and> TopologicalSort diamond = Inr [''A'', ''B'', ''C'', ''D'']
   \<and> HasEdge diamond ''B'' ''C''
   \<and> distinct [''A'', ''B'', ''C'', ''D'']
   \<and> (\<exists>i j. i < j \<and> j < length [''A'', ''B'', ''C'', ''D'']
         \<and> [''A'', ''B'', ''C'', ''D''] ! i = ''B'' \<and> [''A'', ''B'', ''C'', ''D''] ! j = ''C'')"
proof -
  have r: "reachableDAG diamond"
    unfolding diamond_def by (intro reachableDAG.intros)
  have t: "TopologicalSort diamond = Inr [''A'', ''B'', ''C'', ''D'']"
    by code_simp
  have h: "HasEdge diamond ''B'' ''C''"
    by code_simp
  show ?thesis using r t h TopologicalSort_respects_edges [OF r t h] by simp
qed

subsection \<open>Without self-loops, the graph stays acyclic and sorts\<close>

lemma ancestorsHelper_mono:
  "visited |\<subseteq>| ancestorsHelper d pending visited
   \<and> set pending \<subseteq> fset (ancestorsHelper d pending visited)"
proof (induction d pending visited rule: ancestorsHelper.induct)
  case (1 d visited)
  show ?case by simp
next
  case (2 d node pending visited)
  show ?case
  proof (cases "node |\<in>| visited")
    case True
    then show ?thesis using 2(1) by auto
  next
    case False
    then show ?thesis using 2(2) by auto
  qed
qed

lemma ancestorsHelper_closed:
  "x |\<in>| ancestorsHelper d pending visited \<Longrightarrow>
     x |\<in>| visited \<or> innerMap (parents d) x |\<subseteq>| ancestorsHelper d pending visited"
proof (induction d pending visited rule: ancestorsHelper.induct)
  case (1 d visited)
  then show ?case by simp
next
  case (2 d node pending visited)
  show ?case
  proof (cases "node |\<in>| visited")
    case True
    then show ?thesis using 2(1) 2(3) by simp
  next
    case False
    define stack where "stack = sorted_list_of_fset (innerMap (parents d) node) @ pending"
    define R where "R = ancestorsHelper d stack (finsert node visited)"
    have res: "ancestorsHelper d (node # pending) visited = R"
      using False by (simp add: R_def stack_def)
    have "x |\<in>| R" using 2(3) res by simp
    then have IH: "x |\<in>| finsert node visited \<or> innerMap (parents d) x |\<subseteq>| R"
      using 2(2) [OF False] unfolding R_def stack_def by blast
    have "set stack \<subseteq> fset R"
      unfolding R_def using ancestorsHelper_mono [of "finsert node visited" d stack] by simp
    then have "innerMap (parents d) node |\<subseteq>| R"
      by (auto simp: stack_def sorted_list_of_fset.rep_eq)
    then show ?thesis using IH res by auto
  qed
qed

lemma edgeRel_parents: "wfDAG d \<Longrightarrow> (u, v) \<in> edgeRel d \<longleftrightarrow> u |\<in>| innerMap (parents d) v"
  by (simp add: edgeRel_def wfDAG_def)

lemma ancestorsHelper_complete:
  assumes "wfDAG d" "(c, p) \<in> (edgeRel d)\<^sup>*"
  shows "c |\<in>| ancestorsHelper d [p] {||}"
  using assms(2)
proof (induction rule: converse_rtrancl_induct)
  case base
  show ?case using ancestorsHelper_mono [of "{||}" d "[p]"] by simp
next
  case (step a b)
  have "innerMap (parents d) b |\<subseteq>| ancestorsHelper d [p] {||}"
    using ancestorsHelper_closed [OF step.IH] by simp
  moreover have "a |\<in>| innerMap (parents d) b"
    using step.hyps(1) assms(1) by (simp add: edgeRel_parents)
  ultimately show ?case by auto
qed

lemma edges_AddNode:
  "wfDAG d \<Longrightarrow> innerMap (edges (AddNode d node)) k = innerMap (edges d) k"
  by (auto simp: AddNode_def wfDAG_def innerMap_fmupd innerMap_outside)

lemma edgeRel_AddNode: "wfDAG d \<Longrightarrow> edgeRel (AddNode d node) = edgeRel d"
  by (simp add: edgeRel_def edges_AddNode)

lemma AddEdge_success_edgeRel:
  assumes wf: "wfDAG d" and ok: "snd (AddEdge d parent child) = None"
  shows "edgeRel (fst (AddEdge d parent child)) = insert (parent, child) (edgeRel d)"
    and "\<not> wouldCreateCycle d parent child"
proof -
  define d1 where "d1 = AddNode (AddNode d parent) child"
  have wf1: "wfDAG d1" using wf by (simp add: d1_def wfDAG_AddNode)
  have n1: "parent |\<in>| nodes d1" "child |\<in>| nodes d1" by (simp_all add: d1_def nodes_AddNode)
  then obtain cs ps where cs: "fmlookup (edges d1) parent = Some cs"
    and ps: "fmlookup (parents d1) child = Some ps"
    using wf1 AddEdge_success [of parent d1 child] unfolding wfDAG_def by auto
  have nc: "\<not> wouldCreateCycle d1 parent child"
    using ok by (auto simp: AddEdge_def d1_def [symmetric] Let_def split: if_splits)
  then show "\<not> wouldCreateCycle d parent child"
    using wf by (simp add: d1_def wouldCreateCycle_AddNode wfDAG_AddNode)
  have "edges (fst (AddEdge d parent child)) = fmupd parent (finsert child cs) (edges d1)"
    using nc cs ps by (simp add: AddEdge_def d1_def [symmetric])
  then have "edgeRel (fst (AddEdge d parent child)) = insert (parent, child) (edgeRel d1)"
    using cs by (auto simp: edgeRel_def innerMap_fmupd innerMap_lookup split: if_splits)
  moreover have "edgeRel d1 = edgeRel d"
    using wf by (simp add: d1_def edgeRel_AddNode wfDAG_AddNode)
  ultimately show "edgeRel (fst (AddEdge d parent child)) = insert (parent, child) (edgeRel d)"
    by simp
qed

lemma AddEdge_keeps_acyclic:
  assumes wf: "wfDAG d" and ac: "acyclic (edgeRel d)"
    and ok: "snd (AddEdge d parent child) = None" and ne: "parent \<noteq> child"
  shows "acyclic (edgeRel (fst (AddEdge d parent child)))"
proof -
  have "child \<notin> set (Ancestors d parent)"
    using AddEdge_success_edgeRel(2) [OF wf ok] by (simp add: wouldCreateCycle_def)
  moreover have "set (Ancestors d parent) = fset (ancestorsHelper d [parent] {||} |-| {|parent|})"
    unfolding Ancestors_def by (simp only: sorted_list_of_fset_simps)
  ultimately have "child |\<notin>| ancestorsHelper d [parent] {||} |-| {|parent|}"
    by blast
  then have "child |\<notin>| ancestorsHelper d [parent] {||}" using ne by blast
  then have "(child, parent) \<notin> (edgeRel d)\<^sup>*"
    using ancestorsHelper_complete [OF wf] by blast
  then show ?thesis
    using ac by (simp add: AddEdge_success_edgeRel(1) [OF wf ok] acyclic_insert)
qed


lemma kahnReady_step:
  assumes wf: "wfDAG d"
    and inv: "kahnInv d queue result m"
    and ready: "kahnReady d queue result"
    and srt: "sort queue = node # rest"
  shows "kahnReady d
           (snd (fold visitChild (sorted_list_of_fset (innerMap (edges d) node)) (m, rest)))
           (result @ [node])"
proof -
  define P where "P = (\<lambda>v. fset (innerMap (parents d) v))"
  define cs where "cs = sorted_list_of_fset (innerMap (edges d) node)"
  define new where "new = filter (\<lambda>c. degreeOf m c = 1) cs"
  have dcs: "distinct cs" by (simp add: cs_def sorted_list_of_fset.rep_eq)
  have child_iff: "c \<in> set cs \<longleftrightarrow> node \<in> P c" for c
    using wf by (simp add: cs_def sorted_list_of_fset.rep_eq P_def wfDAG_def)
  have q': "snd (fold visitChild cs (m, rest)) = rest @ new"
    using fold_visitChild [OF dcs, of m rest] by (simp add: new_def)
  have dist: "distinct (result @ queue)"
    and deg: "\<And>v. degreeOf m v = int (card (P v - set result))"
    using inv by (simp_all add: kahnInv_def P_def)
  have sq: "set queue = insert node (set rest)"
    using srt by (metis list.simps(15) set_sort)
  have node_r: "node \<notin> set result" using dist sq by auto
  have "v \<in> set (result @ [node]) \<union> set (rest @ new)"
    if v: "v |\<in>| nodes d" and par: "P v \<subseteq> set (result @ [node])" for v
  proof (cases "P v \<subseteq> set result")
    case True
    then have "v \<in> set result \<union> set queue"
      using ready v unfolding kahnReady_def P_def by blast
    then show ?thesis by (auto simp: sq)
  next
    case False
    then have np: "node \<in> P v" using par by auto
    then have "P v - set result = {node}" using par node_r by auto
    then have "degreeOf m v = 1" by (simp add: deg)
    then have "v \<in> set new" using np by (simp add: new_def child_iff)
    then show ?thesis by simp
  qed
  then have "kahnReady d (rest @ new) (result @ [node])"
    unfolding kahnReady_def P_def by blast
  then show ?thesis by (simp only: q' [unfolded cs_def])
qed

lemma kahnLoop_ready:
  assumes "wfDAG d" "kahnInv d queue result m" "kahnReady d queue result"
  shows "kahnReady d [] (kahnLoop d queue result m)"
  using assms
proof (induction d queue result m rule: kahnLoop.induct)
  case (1 d queue result inDegree)
  show ?case
  proof (cases "sort queue")
    case Nil
    then have "kahnLoop d queue result inDegree = result"
      by (subst kahnLoop.simps) simp
    moreover have "queue = []" using Nil by (metis length_0_conv length_sort)
    ultimately show ?thesis using "1.prems"(3) by simp
  next
    case (Cons node rest)
    define s where "s = fold visitChild (sorted_list_of_fset (innerMap (edges d) node)) (inDegree, rest)"
    have "kahnLoop d queue result inDegree = kahnLoop d (snd s) (result @ [node]) (fst s)"
      by (subst kahnLoop.simps) (simp add: Cons s_def Let_def)
    moreover have "kahnInv d (snd s) (result @ [node]) (fst s)"
      unfolding s_def using "1.prems"(1,2) Cons by (rule kahnInv_step)
    moreover have "kahnReady d (snd s) (result @ [node])"
      unfolding s_def using "1.prems" Cons by (rule kahnReady_step)
    ultimately show ?thesis
      using "1.IH" [OF Cons s_def "1.prems"(1)] by simp
  qed
qed

lemma kahnReady_initial:
  assumes wf: "wfDAG d"
  defines "inDegree \<equiv> fmap_of_list
            (map (\<lambda>node. (node, int (fcard (innerMap (parents d) node))))
                 (sorted_list_of_fset (nodes d)))"
  shows "kahnReady d (filter (\<lambda>node. degreeOf inDegree node = 0)
                    (sorted_list_of_fset (fmdom inDegree))) []"
proof -
  have look: "fmlookup inDegree v =
       (if v |\<in>| nodes d then Some (int (fcard (innerMap (parents d) v))) else None)" for v
    by (simp add: inDegree_def fmlookup_of_list map_of_map_restrict restrict_map_def
                  sorted_list_of_fset.rep_eq)
  have dom: "fmdom inDegree = nodes d"
    by (rule fset_eqI) (simp add: fmlookup_dom_iff look)
  have "degreeOf inDegree v = 0"
    if "v |\<in>| nodes d" "fset (innerMap (parents d) v) \<subseteq> {}" for v
    using that by (simp add: degreeOf_def look fcard.rep_eq)
  then show ?thesis
    by (simp add: kahnReady_def dom sorted_list_of_fset.rep_eq)
qed

lemma finite_edgeRel: "wfDAG d \<Longrightarrow> finite (edgeRel d)"
proof (rule finite_subset)
  assume wf: "wfDAG d"
  show "edgeRel d \<subseteq> fset (nodes d) \<times> fset (nodes d)"
    using wfDAG_edge_nodes [OF wf] by (auto simp: edgeRel_def)
qed simp

lemma TopologicalSort_acyclic:
  assumes wf: "wfDAG d" and ac: "acyclic (edgeRel d)"
  shows "\<exists>order. TopologicalSort d = Inr order \<and> set order = fset (nodes d)"
proof -
  define inDegree where "inDegree = fmap_of_list
            (map (\<lambda>node. (node, int (fcard (innerMap (parents d) node))))
                 (sorted_list_of_fset (nodes d)))"
  define queue where "queue = filter (\<lambda>node. degreeOf inDegree node = 0)
                    (sorted_list_of_fset (fmdom inDegree))"
  define order where "order = kahnLoop d queue [] inDegree"
  have inv0: "kahnInv d queue [] inDegree"
    unfolding queue_def inDegree_def by (rule kahnInv_initial [OF wf])
  have rdy0: "kahnReady d queue []"
    unfolding queue_def inDegree_def by (rule kahnReady_initial [OF wf])
  have pf: "parentsFirst d order"
    unfolding order_def by (rule kahnLoop_parentsFirst [OF wf inv0])
  have closed: "kahnReady d [] order"
    unfolding order_def by (rule kahnLoop_ready [OF wf inv0 rdy0])
  have dist: "distinct order" and sub: "set order \<subseteq> fset (nodes d)"
    using pf by (simp_all add: parentsFirst_def)
  have all: "fset (nodes d) \<subseteq> set order"
  proof (rule ccontr)
    assume "\<not> fset (nodes d) \<subseteq> set order"
    then obtain x where x: "x \<in> fset (nodes d) - set order" by blast
    have "wf (edgeRel d)"
      using finite_edgeRel [OF wf] ac by (rule finite_acyclic_wf)
    then obtain z where z: "z \<in> fset (nodes d) - set order"
      and least: "\<And>y. (y, z) \<in> edgeRel d \<Longrightarrow> y \<notin> fset (nodes d) - set order"
      using x by (rule wfE_min) blast
    have "\<not> fset (innerMap (parents d) z) \<subseteq> set order"
      using closed z unfolding kahnReady_def by auto
    then obtain u where u: "u |\<in>| innerMap (parents d) z" "u \<notin> set order" by blast
    then have e: "(u, z) \<in> edgeRel d" using wf by (simp add: edgeRel_parents)
    then have "z |\<in>| innerMap (edges d) u" by (simp add: edgeRel_def)
    then have "u |\<in>| nodes d" by (rule wfDAG_edge_nodes(1) [OF wf])
    then show False using least [OF e] u(2) by simp
  qed
  then have eq: "set order = fset (nodes d)" using sub by blast
  then have "length order = fcard (nodes d)"
    using dist by (metis distinct_card fcard.rep_eq)
  then have "TopologicalSort d = Inr order"
    by (simp add: TopologicalSort_def inDegree_def [symmetric] queue_def [symmetric]
                  order_def [symmetric] Let_def)
  then show ?thesis using eq by blast
qed

lemma addEdges_invariant:
  assumes "addEdges d0 es = Some d" "wfDAG d0" "acyclic (edgeRel d0)"
    and "\<And>p c. (p, c) \<in> set es \<Longrightarrow> p \<noteq> c"
  shows "wfDAG d \<and> acyclic (edgeRel d)"
  using assms
proof (induction es arbitrary: d0)
  case Nil
  then show ?case by simp
next
  case (Cons e es)
  obtain p c where e: "e = (p, c)" by (cases e)
  have ok: "snd (AddEdge d0 p c) = None"
    and rest: "addEdges (fst (AddEdge d0 p c)) es = Some d"
    using Cons.prems(1) by (auto simp: e split: option.splits)
  have "p \<noteq> c" using Cons.prems(4) [of p c] by (simp add: e)
  then have "acyclic (edgeRel (fst (AddEdge d0 p c)))"
    using Cons.prems(2,3) ok by (intro AddEdge_keeps_acyclic)
  moreover have "wfDAG (fst (AddEdge d0 p c))"
    using Cons.prems(2) by (rule wfDAG_AddEdge)
  ultimately show ?case
    using Cons.IH [OF rest] Cons.prems(4) by simp
qed

lemma addEdges_without_self_loop_sorts:
  assumes "addEdges NewDAG es = Some d"
    and "\<And>p c. (p, c) \<in> set es \<Longrightarrow> p \<noteq> c"
  shows "\<exists>order. TopologicalSort d = Inr order \<and> set order = fset (nodes d)"
proof -
  have "acyclic (edgeRel NewDAG)"
    by (simp add: edgeRel_def NewDAG_def innerMap_fmempty acyclic_def)
  then have "wfDAG d \<and> acyclic (edgeRel d)"
    using assms wfDAG_NewDAG by (intro addEdges_invariant [of NewDAG es d]) simp_all
  then show ?thesis by (simp add: TopologicalSort_acyclic)
qed

text \<open>
  Claim C1. The claim says that after any sequence of successful \<^verbatim>\<open>AddEdge\<close> calls,
  calls \<^verbatim>\<open>AddEdge(v, v)\<close> included, \<^verbatim>\<open>TopologicalSort\<close> succeeds. The code accepts a
  self-loop: \<^verbatim>\<open>Ancestors\<close> deletes the node itself from the visited set, so
  \<^verbatim>\<open>wouldCreateCycle(v, v)\<close> is false, the edge \<open>v \<rightarrow> v\<close> is stored, and the sort
  then reports a cycle. The self-loop is the only way in: by the lemma above, a run of
  successful calls none of which has \<open>parent = child\<close> leaves a graph that sorts.
\<close>

theorem AddEdge_self_loop_then_sort_fails:
  "AddEdge NewDAG ''A'' ''A''
     = (\<lparr>nodes = {|''A''|},
         edges = fmupd ''A'' {|''A''|} fmempty,
         parents = fmupd ''A'' {|''A''|} fmempty\<rparr>, None)
   \<and> TopologicalSort (fst (AddEdge NewDAG ''A'' ''A'')) = Inl (Err CycleDetected)"
  by code_simp

section \<open>Properties of discrete factors\<close>

subsection \<open>Loops that stop at the first failure\<close>












lemma NewDiscreteFactor_fits:
  "int (length vals) = tableSize vars cardinality
     \<Longrightarrow> NewDiscreteFactor vars cardinality vals
           = Inr \<lparr>Variables = vars, Cardinality = cardinality, Values = vals\<rparr>"
  by (simp add: NewDiscreteFactor_def)



subsection \<open>The stride index\<close>

lemma fold_times: "fold (\<lambda>v n. n * g v) vs (k :: int) = k * prod_list (map g vs)"
  by (induction vs arbitrary: k) (simp_all add: mult.assoc)

lemma tableSize_prod: "tableSize vs c = prod_list (map (readInt c) vs)"
  by (simp add: tableSize_def fold_times)

lemma tableSize_Nil: "tableSize [] c = 1"
  by (simp add: tableSize_prod)

lemma tableSize_Cons: "tableSize (v # vs) c = readInt c v * tableSize vs c"
  by (simp add: tableSize_prod)

lemma tableSize_append: "tableSize (xs @ ys) c = tableSize xs c * tableSize ys c"
  by (simp add: tableSize_prod)

lemma tableSize_nonneg: "(\<And>v. v \<in> set vs \<Longrightarrow> 0 \<le> readInt c v) \<Longrightarrow> 0 \<le> tableSize vs c"
  by (induction vs) (simp_all add: tableSize_Nil tableSize_Cons)

lemma tableSize_cong:
  "(\<And>v. v \<in> set vs \<Longrightarrow> readInt c v = readInt c' v) \<Longrightarrow> tableSize vs c = tableSize vs c'"
  by (induction vs) (simp_all add: tableSize_Nil tableSize_Cons)

lemma stride_snd:
  "snd (fold (\<lambda>v (idx, stride). (idx + readInt a v * stride, stride * readInt c v)) (rev vs) (0, 1))
     = tableSize vs c"
  by (induction vs) (simp_all add: tableSize_Nil tableSize_Cons split_def mult.commute)

lemma assignmentToIndex_Nil: "assignmentToIndex [] a c = 0"
  by (simp add: assignmentToIndex_def)

lemma assignmentToIndex_Cons:
  "assignmentToIndex (v # vs) a c = readInt a v * tableSize vs c + assignmentToIndex vs a c"
  using stride_snd [of a c vs] by (simp add: assignmentToIndex_def split_def)

lemma assignmentToIndex_append:
  "assignmentToIndex (xs @ ys) a c
     = assignmentToIndex xs a c * tableSize ys c + assignmentToIndex ys a c"
  by (induction xs)
     (simp_all add: assignmentToIndex_Nil assignmentToIndex_Cons tableSize_append algebra_simps)

lemma assignmentToIndex_bounds:
  assumes "\<And>v. v \<in> set vs \<Longrightarrow> 0 \<le> readInt a v \<and> readInt a v < readInt c v"
  shows "0 \<le> assignmentToIndex vs a c \<and> assignmentToIndex vs a c < tableSize vs c"
  using assms
proof (induction vs)
  case Nil
  show ?case by (simp add: assignmentToIndex_Nil tableSize_Nil)
next
  case (Cons v vs)
  have IH: "0 \<le> assignmentToIndex vs a c" "assignmentToIndex vs a c < tableSize vs c"
    using Cons by simp_all
  have d: "0 \<le> readInt a v" "readInt a v + 1 \<le> readInt c v"
    using Cons.prems [of v] by simp_all
  have p: "0 < tableSize vs c" using IH by linarith
  have "(readInt a v + 1) * tableSize vs c \<le> readInt c v * tableSize vs c"
    using d(2) p by (intro mult_right_mono) simp_all
  then have "readInt a v * tableSize vs c + assignmentToIndex vs a c < readInt c v * tableSize vs c"
    using IH(2) by (simp add: algebra_simps)
  moreover have "0 \<le> readInt a v * tableSize vs c" using d(1) p by simp
  ultimately show ?case using IH(1) by (simp add: assignmentToIndex_Cons tableSize_Cons)
qed

lemma assignmentToIndex_cong:
  assumes "\<And>v. v \<in> set vs \<Longrightarrow> readInt a v = readInt a' v"
    and "\<And>v. v \<in> set vs \<Longrightarrow> readInt c v = readInt c' v"
  shows "assignmentToIndex vs a c = assignmentToIndex vs a' c'"
  using assms
proof (induction vs)
  case Nil
  show ?case by (simp add: assignmentToIndex_Nil)
next
  case (Cons v vs)
  have "tableSize vs c = tableSize vs c'" using Cons.prems(2) by (intro tableSize_cong) simp
  then show ?case using Cons by (simp add: assignmentToIndex_Cons)
qed

lemma projectAssignmentToIndex_eq:
  "projectAssignmentToIndex f a = assignmentToIndex (Variables f) a (Cardinality f)"
  by (simp add: projectAssignmentToIndex_def assignmentToIndex_def)

lemma readInt_fmupd: "readInt (fmupd k n m) k' = (if k = k' then n else readInt m k')"
  by (simp add: readInt_def)

lemma readInt_fmempty: "readInt fmempty k = 0"
  by (simp add: readInt_def)


subsection \<open>Marginalization\<close>

lemma loop_upt:
  assumes "Q 0 r"
    and "\<And>i s. i < n \<Longrightarrow> Q i s \<Longrightarrow> \<exists>s'. body i s = Inr s' \<and> Q (Suc i) s'"
  shows "\<exists>r'. fold (\<lambda>i acc. case acc of Inl e \<Rightarrow> Inl e | Inr res \<Rightarrow> body i res) [0..<n] (Inr r) = Inr r'
               \<and> Q n r'"
  using assms(2)
proof (induction n)
  case 0
  show ?case using assms(1) by simp
next
  case (Suc n)
  obtain s where s: "fold (\<lambda>i acc. case acc of Inl e \<Rightarrow> Inl e | Inr res \<Rightarrow> body i res) [0..<n] (Inr r) = Inr s"
    and "Q n s"
    using Suc.IH Suc.prems by (metis less_Suc_eq)
  then obtain s' where "body n s = Inr s'" "Q (Suc n) s'"
    using Suc.prems [of n s] by auto
  then show ?case using s by simp
qed





lemma readAt_ok: "0 \<le> i \<Longrightarrow> i < int (length xs) \<Longrightarrow> readAt xs i = Inr (xs ! nat i)"
  by (simp add: readAt_def)

lemma writeAt_ok: "0 \<le> i \<Longrightarrow> i < int (length xs) \<Longrightarrow> writeAt xs i x = Inr (xs[nat i := x])"
  by (simp add: writeAt_def)



lemma validFactor_cardinality:
  assumes "validFactor f" "v \<in> set (Variables f)"
  shows "\<exists>n. fmlookup (Cardinality f) v = Some n \<and> 0 \<le> n" "0 \<le> readInt (Cardinality f) v"
proof -
  show "\<exists>n. fmlookup (Cardinality f) v = Some n \<and> 0 \<le> n"
    using assms by (auto simp: validFactor_def list_all_iff split: option.splits)
  then show "0 \<le> readInt (Cardinality f) v"
    by (auto simp: readInt_def)
qed



subsection \<open>Multiplication\<close>

lemma mergeCardinality_agree:
  assumes "distinct (map fst kvs)"
    and "\<And>k v e. (k, v) \<in> set kvs \<Longrightarrow> fmlookup m k = Some e \<Longrightarrow> e = v"
  shows "\<exists>m'. mergeCardinality m kvs = Inr m'
           \<and> (\<forall>k. fmlookup m' k = (case map_of kvs k of Some v \<Rightarrow> Some v | None \<Rightarrow> fmlookup m k))"
  using assms
proof (induction kvs arbitrary: m)
  case Nil
  show ?case by simp
next
  case (Cons kv kvs)
  obtain k v where kv: "kv = (k, v)" by (cases kv)
  have fresh: "k \<notin> fst ` set kvs" and d: "distinct (map fst kvs)"
    using Cons.prems(1) by (simp_all add: kv)
  have step: "mergeCardinality m (kv # kvs) = mergeCardinality (fmupd k v m) kvs"
    using Cons.prems(2) [of k v] by (auto simp: kv split: option.splits)
  have "e = v'" if "(k', v') \<in> set kvs" "fmlookup (fmupd k v m) k' = Some e" for k' v' e
  proof -
    have "k' \<noteq> k" using that(1) fresh by force
    then show ?thesis using that Cons.prems(2) [of k' v' e] by simp
  qed
  then obtain m' where m': "mergeCardinality (fmupd k v m) kvs = Inr m'"
    "\<And>x. fmlookup m' x = (case map_of kvs x of Some v \<Rightarrow> Some v | None \<Rightarrow> fmlookup (fmupd k v m) x)"
    using Cons.IH [OF d, of "fmupd k v m"] by blast
  have "fmlookup m' x = (case map_of (kv # kvs) x of Some v \<Rightarrow> Some v | None \<Rightarrow> fmlookup m x)" for x
  proof (cases "x = k")
    case True
    then have "map_of kvs x = None" using fresh by (simp add: map_of_eq_None_iff)
    then show ?thesis using True by (simp add: m'(2) kv)
  next
    case False
    then show ?thesis by (simp add: m'(2) kv split: option.splits)
  qed
  then show ?case using m'(1) step by simp
qed

lemma mergeCardinality_mismatch:
  assumes "distinct (map fst kvs)"
    and "(k, v) \<in> set kvs" "fmlookup m k = Some e" "e \<noteq> v"
  shows "\<exists>k'. mergeCardinality m kvs = Inl (Err (CardinalityMismatch k'))"
  using assms
proof (induction kvs arbitrary: m)
  case Nil
  then show ?case by simp
next
  case (Cons kv kvs)
  obtain k0 v0 where kv: "kv = (k0, v0)" by (cases kv)
  show ?case
  proof (cases "\<exists>e0. fmlookup m k0 = Some e0 \<and> e0 \<noteq> v0")
    case True
    then show ?thesis by (auto simp: kv)
  next
    case False
    then have step: "mergeCardinality m (kv # kvs) = mergeCardinality (fmupd k0 v0 m) kvs"
      by (auto simp: kv split: option.splits)
    have "(k, v) \<noteq> (k0, v0)" using False Cons.prems(3,4) by auto
    then have mem: "(k, v) \<in> set kvs" using Cons.prems(2) by (auto simp: kv)
    then have "k \<noteq> k0" using Cons.prems(1) by (force simp: kv)
    then have "fmlookup (fmupd k0 v0 m) k = Some e" using Cons.prems(3) by simp
    then show ?thesis
      using Cons.IH [OF _ mem _ Cons.prems(4), of "fmupd k0 v0 m"] Cons.prems(1) step by simp
  qed
qed

lemma sorted_list_of_fmap_keys:
  "distinct (map fst (sorted_list_of_fmap m))"
  "map_of (sorted_list_of_fmap m) = fmlookup m"
  "(k, v) \<in> set (sorted_list_of_fmap m) \<longleftrightarrow> fmlookup m k = Some v"
proof -
  show d: "distinct (map fst (sorted_list_of_fmap m))"
    by (simp add: sorted_list_of_fmap_def comp_def sorted_list_of_fset.rep_eq)
  show m: "map_of (sorted_list_of_fmap m) = fmlookup m" by simp
  show "(k, v) \<in> set (sorted_list_of_fmap m) \<longleftrightarrow> fmlookup m k = Some v"
    using map_of_eq_Some_iff [OF d, of k v] by (simp only: m)
qed


lemma multiplyHelper_cells:
  assumes Vf: "set (Variables f) \<subseteq> set vars" and Vo: "set (Variables other) \<subseteq> set vars"
    and Cf: "\<And>v. v \<in> set (Variables f) \<Longrightarrow> readInt (Cardinality f) v = readInt nc v"
    and Co: "\<And>v. v \<in> set (Variables other) \<Longrightarrow> readInt (Cardinality other) v = readInt nc v"
    and Lf: "int (length (Values f)) = tableSize (Variables f) (Cardinality f)"
    and Lo: "int (length (Values other)) = tableSize (Variables other) (Cardinality other)"
    and D: "distinct vars"
    and C0: "\<And>v. v \<in> set vars \<Longrightarrow> 0 \<le> readInt nc v"
    and split: "vars = pre @ rest"
    and range: "\<And>v. v \<in> set pre \<Longrightarrow> 0 \<le> readInt asg v \<and> readInt asg v < readInt nc v"
    and len: "int (length res) = tableSize vars nc"
  shows "\<exists>res'. multiplyHelper f other vars nc rest asg res = Inr res'
           \<and> length res' = length res
           \<and> (\<forall>a. (\<forall>v\<in>set pre. readInt a v = readInt asg v)
                  \<and> (\<forall>v\<in>set rest. 0 \<le> readInt a v \<and> readInt a v < readInt nc v)
                \<longrightarrow> res' ! nat (assignmentToIndex vars a nc)
                      = Values f ! nat (projectAssignmentToIndex f a)
                        * Values other ! nat (projectAssignmentToIndex other a))
           \<and> (\<forall>j. 0 \<le> j \<and> j < int (length res)
                  \<and> (j < assignmentToIndex pre asg nc * tableSize rest nc
                     \<or> assignmentToIndex pre asg nc * tableSize rest nc + tableSize rest nc \<le> j)
                \<longrightarrow> res' ! nat j = res ! nat j)"
  using split range len
proof (induction rest arbitrary: pre asg res)
  case Nil
  define N where "N = assignmentToIndex vars asg nc"
  define I1 where "I1 = projectAssignmentToIndex f asg"
  define I2 where "I2 = projectAssignmentToIndex other asg"
  have vars: "vars = pre" using Nil.prems(1) by simp
  have "0 \<le> N \<and> N < tableSize vars nc"
    unfolding N_def using Nil.prems(2) by (intro assignmentToIndex_bounds) (simp add: vars)
  then have N: "0 \<le> N" "N < int (length res)" using Nil.prems(3) by simp_all
  have "0 \<le> I1 \<and> I1 < tableSize (Variables f) (Cardinality f)"
    unfolding I1_def projectAssignmentToIndex_eq
  proof (intro assignmentToIndex_bounds)
    fix v assume "v \<in> set (Variables f)"
    then show "0 \<le> readInt asg v \<and> readInt asg v < readInt (Cardinality f) v"
      using Vf Cf [of v] Nil.prems(2) [of v] by (auto simp: vars)
  qed
  then have I1: "0 \<le> I1" "I1 < int (length (Values f))" using Lf by simp_all
  have "0 \<le> I2 \<and> I2 < tableSize (Variables other) (Cardinality other)"
    unfolding I2_def projectAssignmentToIndex_eq
  proof (intro assignmentToIndex_bounds)
    fix v assume "v \<in> set (Variables other)"
    then show "0 \<le> readInt asg v \<and> readInt asg v < readInt (Cardinality other) v"
      using Vo Co [of v] Nil.prems(2) [of v] by (auto simp: vars)
  qed
  then have I2: "0 \<le> I2" "I2 < int (length (Values other))" using Lo by simp_all
  define res' where "res' = res[nat N := Values f ! nat I1 * Values other ! nat I2]"
  have run: "multiplyHelper f other vars nc [] asg res = Inr res'"
    using N I1 I2
    by (simp add: Let_def N_def [symmetric] I1_def [symmetric] I2_def [symmetric]
                  readAt_ok writeAt_ok res'_def)
  have cell: "res' ! nat (assignmentToIndex vars a nc)
                = Values f ! nat (projectAssignmentToIndex f a)
                  * Values other ! nat (projectAssignmentToIndex other a)"
    if agree: "\<forall>v\<in>set pre. readInt a v = readInt asg v" for a
  proof -
    have "assignmentToIndex vars a nc = N"
      unfolding N_def using agree by (intro assignmentToIndex_cong) (simp_all add: vars)
    moreover have "projectAssignmentToIndex f a = I1"
      unfolding I1_def projectAssignmentToIndex_eq
      using agree Vf by (intro assignmentToIndex_cong) (auto simp: vars)
    moreover have "projectAssignmentToIndex other a = I2"
      unfolding I2_def projectAssignmentToIndex_eq
      using agree Vo by (intro assignmentToIndex_cong) (auto simp: vars)
    moreover have "nat N < length res" using N by linarith
    ultimately show ?thesis by (simp add: res'_def)
  qed
  have same: "res' ! nat j = res ! nat j"
    if "0 \<le> j" "j < N * 1 \<or> N * 1 + 1 \<le> j" for j
  proof -
    have "nat j \<noteq> nat N" using that N(1) by auto
    then show ?thesis by (simp add: res'_def)
  qed
  show ?case
  proof (intro exI [of _ res'] conjI allI impI)
    show "multiplyHelper f other vars nc [] asg res = Inr res'" by (rule run)
    show "length res' = length res" by (simp add: res'_def)
  next
    fix a
    assume "(\<forall>v\<in>set pre. readInt a v = readInt asg v)
              \<and> (\<forall>v\<in>set []. 0 \<le> readInt a v \<and> readInt a v < readInt nc v)"
    then show "res' ! nat (assignmentToIndex vars a nc)
                = Values f ! nat (projectAssignmentToIndex f a)
                  * Values other ! nat (projectAssignmentToIndex other a)"
      using cell [of a] by simp
  next
    fix j
    assume "0 \<le> j \<and> j < int (length res)
              \<and> (j < assignmentToIndex pre asg nc * tableSize [] nc
                 \<or> assignmentToIndex pre asg nc * tableSize [] nc + tableSize [] nc \<le> j)"
    then show "res' ! nat j = res ! nat j"
      using same [of j] by (simp add: tableSize_Nil N_def vars)
  qed
next
  case (Cons v vs)
  define N where "N = assignmentToIndex pre asg nc"
  define P where "P = tableSize vs nc"
  define cv where "cv = readInt nc v"
  define val where "val = (\<lambda>a. Values f ! nat (projectAssignmentToIndex f a)
                                 * Values other ! nat (projectAssignmentToIndex other a))"
  have v_var: "v \<in> set vars" and v_pre: "v \<notin> set pre"
    using Cons.prems(1) D by auto
  have cv0: "0 \<le> cv" using C0 [OF v_var] by (simp add: cv_def)
  have P0: "0 \<le> P"
    unfolding P_def using Cons.prems(1) by (intro tableSize_nonneg C0) simp
  have total: "tableSize vars nc = tableSize pre nc * (cv * P)"
    by (simp add: Cons.prems(1) tableSize_append tableSize_Cons cv_def P_def)
  have index: "assignmentToIndex vars a nc = (N * cv + readInt a v) * P + assignmentToIndex vs a nc"
    if "\<forall>u\<in>set pre. readInt a u = readInt asg u" for a
  proof -
    have "assignmentToIndex pre a nc = N"
      unfolding N_def using that by (intro assignmentToIndex_cong) simp_all
    then show ?thesis
      by (simp add: Cons.prems(1) assignmentToIndex_append assignmentToIndex_Cons tableSize_Cons
                    cv_def P_def algebra_simps)
  qed
  define Q where "Q = (\<lambda>i s. length s = length res
      \<and> (\<forall>a. (\<forall>u\<in>set pre. readInt a u = readInt asg u)
              \<and> (\<forall>u\<in>set (v # vs). 0 \<le> readInt a u \<and> readInt a u < readInt nc u)
              \<and> readInt a v < int i
            \<longrightarrow> s ! nat (assignmentToIndex vars a nc) = val a)
      \<and> (\<forall>j. 0 \<le> j \<and> j < int (length res)
              \<and> (j < N * cv * P \<or> (N * cv + int i) * P \<le> j)
            \<longrightarrow> s ! nat j = res ! nat j))"
  have step: "\<exists>s'. multiplyHelper f other vars nc vs (fmupd v (int i) asg) s = Inr s'
                  \<and> Q (Suc i) s'"
    if i: "i < nat cv" and Qs: "Q i s" for i s
  proof -
    define asg' where "asg' = fmupd v (int i) asg"
    have split': "vars = (pre @ [v]) @ vs" using Cons.prems(1) by simp
    have range': "0 \<le> readInt asg' u \<and> readInt asg' u < readInt nc u"
      if "u \<in> set (pre @ [v])" for u
      using that i Cons.prems(2) [of u] v_pre
      by (auto simp: asg'_def readInt_fmupd cv_def)
    have len': "int (length s) = tableSize vars nc"
      using Qs Cons.prems(3) by (simp add: Q_def)
    have ls: "length s = length res" using Qs by (simp add: Q_def)
    have QsA: "s ! nat (assignmentToIndex vars a nc) = val a"
      if "\<forall>u\<in>set pre. readInt a u = readInt asg u"
         "\<forall>u\<in>set (v # vs). 0 \<le> readInt a u \<and> readInt a u < readInt nc u"
         "readInt a v < int i" for a
      using Qs that unfolding Q_def by simp
    have QsB: "s ! nat j = res ! nat j"
      if "0 \<le> j" "j < int (length res)" "j < N * cv * P \<or> (N * cv + int i) * P \<le> j" for j
      using Qs that unfolding Q_def by simp
    have "assignmentToIndex pre asg' nc = N"
      unfolding N_def asg'_def using v_pre
      by (intro assignmentToIndex_cong) (auto simp: readInt_fmupd)
    then have N': "assignmentToIndex (pre @ [v]) asg' nc = N * cv + int i"
      by (simp add: assignmentToIndex_append assignmentToIndex_Cons assignmentToIndex_Nil
                    tableSize_Cons tableSize_Nil asg'_def readInt_fmupd cv_def)
    obtain s' where run: "multiplyHelper f other vars nc vs asg' s = Inr s'"
      and l': "length s' = length s"
      and cells: "\<And>a. (\<forall>u\<in>set (pre @ [v]). readInt a u = readInt asg' u)
                  \<and> (\<forall>u\<in>set vs. 0 \<le> readInt a u \<and> readInt a u < readInt nc u)
                \<Longrightarrow> s' ! nat (assignmentToIndex vars a nc) = val a"
      and keep: "\<And>j. 0 \<le> j \<and> j < int (length s)
                  \<and> (j < (N * cv + int i) * P \<or> (N * cv + int i) * P + P \<le> j)
                \<Longrightarrow> s' ! nat j = s ! nat j"
      using Cons.IH [OF split' range' len'] unfolding N' P_def [symmetric] val_def by blast
    have A': "s' ! nat (assignmentToIndex vars a nc) = val a"
      if agree: "\<forall>u\<in>set pre. readInt a u = readInt asg u"
        and inr: "\<forall>u\<in>set (v # vs). 0 \<le> readInt a u \<and> readInt a u < readInt nc u"
        and lt: "readInt a v < int (Suc i)" for a
    proof (cases "readInt a v = int i")
      case True
      have "\<forall>u\<in>set (pre @ [v]). readInt a u = readInt asg' u"
        using agree True v_pre by (auto simp: asg'_def readInt_fmupd)
      then show ?thesis using cells [of a] inr by simp
    next
      case False
      then have lt': "readInt a v < int i" using lt by simp
      define J where "J = assignmentToIndex vars a nc"
      have "0 \<le> assignmentToIndex vs a nc \<and> assignmentToIndex vs a nc < P"
        unfolding P_def using inr by (intro assignmentToIndex_bounds) simp
      moreover have "(N * cv + readInt a v + 1) * P \<le> (N * cv + int i) * P"
        using lt' P0 by (intro mult_right_mono) simp_all
      ultimately have before: "J < (N * cv + int i) * P"
        unfolding J_def index [OF agree] by (simp add: algebra_simps)
      have "0 \<le> J \<and> J < tableSize vars nc"
        unfolding J_def
      proof (intro assignmentToIndex_bounds)
        fix u assume "u \<in> set vars"
        then show "0 \<le> readInt a u \<and> readInt a u < readInt nc u"
          using agree inr Cons.prems(1,2) by auto
      qed
      then have "0 \<le> J \<and> J < int (length s)" using len' by simp
      then have "s' ! nat J = s ! nat J" using keep [of J] before by simp
      moreover have "s ! nat J = val a"
        unfolding J_def using agree inr lt' by (rule QsA)
      ultimately show ?thesis by (simp add: J_def)
    qed
    have B': "s' ! nat j = res ! nat j"
      if j: "0 \<le> j" "j < int (length res)"
        and out: "j < N * cv * P \<or> (N * cv + int (Suc i)) * P \<le> j" for j
    proof -
      have "N * cv * P \<le> (N * cv + int i) * P"
        using P0 by (intro mult_right_mono) simp_all
      then have "j < (N * cv + int i) * P \<or> (N * cv + int i) * P + P \<le> j"
        using out by (auto simp: algebra_simps)
      then have "s' ! nat j = s ! nat j" using keep [of j] j ls by simp
      moreover have "(N * cv + int i) * P \<le> (N * cv + int (Suc i)) * P"
        using P0 by (intro mult_right_mono) simp_all
      then have "j < N * cv * P \<or> (N * cv + int i) * P \<le> j"
        using out by linarith
      then have "s ! nat j = res ! nat j"
        using j by (intro QsB) simp_all
      ultimately show ?thesis by simp
    qed
    have "Q (Suc i) s'"
      unfolding Q_def
    proof (intro conjI allI impI)
      show "length s' = length res" using l' ls by simp
    next
      fix a
      assume "(\<forall>u\<in>set pre. readInt a u = readInt asg u)
              \<and> (\<forall>u\<in>set (v # vs). 0 \<le> readInt a u \<and> readInt a u < readInt nc u)
              \<and> readInt a v < int (Suc i)"
      then show "s' ! nat (assignmentToIndex vars a nc) = val a"
        by (intro A') simp_all
    next
      fix j
      assume "0 \<le> j \<and> j < int (length res)
              \<and> (j < N * cv * P \<or> (N * cv + int (Suc i)) * P \<le> j)"
      then show "s' ! nat j = res ! nat j"
        by (intro B') simp_all
    qed
    then show ?thesis using run by (simp add: asg'_def)
  qed
  have "Q 0 res" by (simp add: Q_def)
  then obtain res' where
    loop: "fold (\<lambda>i acc. case acc of Inl e \<Rightarrow> Inl e
              | Inr r \<Rightarrow> multiplyHelper f other vars nc vs (fmupd v (int i) asg) r)
            [0..<nat cv] (Inr res) = Inr res'"
    and fin: "Q (nat cv) res'"
    using loop_upt [of Q res "nat cv"
            "\<lambda>i s. multiplyHelper f other vars nc vs (fmupd v (int i) asg) s"] step
    by blast
  have run: "multiplyHelper f other vars nc (v # vs) asg res = Inr res'"
    using loop by (simp add: cv_def)
  have l: "length res' = length res" using fin by (simp add: Q_def)
  have cells: "res' ! nat (assignmentToIndex vars a nc) = val a"
    if "\<forall>u\<in>set pre. readInt a u = readInt asg u"
       "\<forall>u\<in>set (v # vs). 0 \<le> readInt a u \<and> readInt a u < readInt nc u" for a
  proof -
    have "readInt a v < int (nat cv)" using that(2) cv0 by (simp add: cv_def)
    then show ?thesis using fin that unfolding Q_def by simp
  qed
  have keep: "res' ! nat j = res ! nat j"
    if "0 \<le> j" "j < int (length res)"
       "j < N * tableSize (v # vs) nc \<or> N * tableSize (v # vs) nc + tableSize (v # vs) nc \<le> j" for j
  proof -
    have "j < N * cv * P \<or> (N * cv + int (nat cv)) * P \<le> j"
      using that(3) cv0 by (simp add: tableSize_Cons cv_def P_def algebra_simps)
    then show ?thesis using fin that(1,2) unfolding Q_def by simp
  qed
  show ?case
  proof (intro exI [of _ res'] conjI allI impI)
    show "multiplyHelper f other vars nc (v # vs) asg res = Inr res'" by (rule run)
    show "length res' = length res" by (rule l)
  next
    fix a
    assume "(\<forall>u\<in>set pre. readInt a u = readInt asg u)
              \<and> (\<forall>u\<in>set (v # vs). 0 \<le> readInt a u \<and> readInt a u < readInt nc u)"
    then show "res' ! nat (assignmentToIndex vars a nc)
                = Values f ! nat (projectAssignmentToIndex f a)
                  * Values other ! nat (projectAssignmentToIndex other a)"
      using cells [of a] by (simp add: val_def)
  next
    fix j
    assume "0 \<le> j \<and> j < int (length res)
              \<and> (j < assignmentToIndex pre asg nc * tableSize (v # vs) nc
                 \<or> assignmentToIndex pre asg nc * tableSize (v # vs) nc + tableSize (v # vs) nc \<le> j)"
    then show "res' ! nat j = res ! nat j"
      using keep [of j] by (simp add: N_def)
  qed
qed


lemma cardinalitiesAgree_iff:
  "cardinalitiesAgree f other \<longleftrightarrow>
     (\<forall>k a b. fmlookup (Cardinality f) k = Some a \<longrightarrow> fmlookup (Cardinality other) k = Some b
                \<longrightarrow> a = b)"
proof
  assume agree: "cardinalitiesAgree f other"
  show "\<forall>k a b. fmlookup (Cardinality f) k = Some a \<longrightarrow> fmlookup (Cardinality other) k = Some b
                \<longrightarrow> a = b"
  proof (intro allI impI)
    fix k a b
    assume a: "fmlookup (Cardinality f) k = Some a" and b: "fmlookup (Cardinality other) k = Some b"
    have "k |\<in>| fmdom (Cardinality other)" using b by (rule fmdomI)
    then have "case fmlookup (Cardinality f) k of None \<Rightarrow> True
               | Some existing \<Rightarrow> fmlookup (Cardinality other) k = Some existing"
      using agree unfolding cardinalitiesAgree_def by blast
    then show "a = b" using a b by simp
  qed
next
  assume "\<forall>k a b. fmlookup (Cardinality f) k = Some a \<longrightarrow> fmlookup (Cardinality other) k = Some b
                \<longrightarrow> a = b"
  then show "cardinalitiesAgree f other"
    unfolding cardinalitiesAgree_def
    by (auto split: option.splits elim!: fmdomE)
qed

text \<open>
  Claim C4, as amended. For two factors that meet the invariants and whose cardinality
  maps give no name two different cardinalities, \<^verbatim>\<open>A.Multiply(B)\<close> returns a factor
  \<open>C\<close> whose variables are the sorted, duplicate-free union of the variables of \<open>A\<close> and
  \<open>B\<close>, whose cardinalities are those of \<open>A\<close> and \<open>B\<close>, and whose value at the stride
  index of every assignment in range is the product of the value of \<open>A\<close> and the value of
  \<open>B\<close> at the indices the assignment projects to. If the maps give some name two
  different cardinalities, \<^verbatim>\<open>Multiply\<close> returns the mismatch error.
\<close>

theorem Multiply_correct:
  assumes "validFactor A" "validFactor B"
  shows "(cardinalitiesAgree A B \<longrightarrow>
            (\<exists>C. Multiply A B = Inr C
               \<and> sorted (Variables C) \<and> distinct (Variables C)
               \<and> set (Variables C) = set (Variables A) \<union> set (Variables B)
               \<and> (\<forall>v\<in>set (Variables A). readInt (Cardinality C) v = readInt (Cardinality A) v)
               \<and> (\<forall>v\<in>set (Variables B). readInt (Cardinality C) v = readInt (Cardinality B) v)
               \<and> (\<forall>asg. inRange C asg \<longrightarrow>
                     Values C ! nat (assignmentToIndex (Variables C) asg (Cardinality C))
                       = Values A ! nat (projectAssignmentToIndex A asg)
                         * Values B ! nat (projectAssignmentToIndex B asg))))
       \<and> (\<not> cardinalitiesAgree A B \<longrightarrow>
            (\<exists>k. Multiply A B = Inl (Err (CardinalityMismatch k))))"
proof (intro conjI impI)
  assume agree: "cardinalitiesAgree A B"
  define kvs where "kvs = sorted_list_of_fmap (Cardinality B)"
  define vars where "vars = sort (remdups (Variables A @ Variables B))"
  have "\<And>k v e. (k, v) \<in> set kvs \<Longrightarrow> fmlookup (Cardinality A) k = Some e \<Longrightarrow> e = v"
    using agree unfolding kvs_def sorted_list_of_fmap_keys(3) cardinalitiesAgree_iff by blast
  then obtain nc where merge: "mergeCardinality (Cardinality A) kvs = Inr nc"
    and nc: "\<And>k. fmlookup nc k = (case fmlookup (Cardinality B) k of
                                      Some v \<Rightarrow> Some v | None \<Rightarrow> fmlookup (Cardinality A) k)"
    using mergeCardinality_agree [of kvs "Cardinality A"]
    unfolding kvs_def sorted_list_of_fmap_keys(2) using sorted_list_of_fmap_keys(1) by blast
  have CA: "readInt (Cardinality A) v = readInt nc v" if mem: "v \<in> set (Variables A)" for v
  proof -
    obtain a where a: "fmlookup (Cardinality A) v = Some a"
      using validFactor_cardinality(1) [OF assms(1) mem] by blast
    show ?thesis
    proof (cases "fmlookup (Cardinality B) v")
      case None
      then show ?thesis by (simp add: readInt_def nc)
    next
      case (Some b)
      then have "a = b" using agree a unfolding cardinalitiesAgree_iff by blast
      then show ?thesis using a Some by (simp add: readInt_def nc)
    qed
  qed
  have CB: "readInt (Cardinality B) v = readInt nc v" if mem: "v \<in> set (Variables B)" for v
  proof -
    obtain b where "fmlookup (Cardinality B) v = Some b"
      using validFactor_cardinality(1) [OF assms(2) mem] by blast
    then show ?thesis by (simp add: readInt_def nc)
  qed
  have D: "distinct vars" and S: "sorted vars"
    and V: "set vars = set (Variables A) \<union> set (Variables B)"
    by (simp_all add: vars_def)
  have C0: "0 \<le> readInt nc v" if "v \<in> set vars" for v
    using that V CA [of v] CB [of v]
      validFactor_cardinality(2) [OF assms(1), of v] validFactor_cardinality(2) [OF assms(2), of v]
    by auto
  have LA: "int (length (Values A)) = tableSize (Variables A) (Cardinality A)"
    and LB: "int (length (Values B)) = tableSize (Variables B) (Cardinality B)"
    using assms by (simp_all add: validFactor_def)
  have size0: "0 \<le> tableSize vars nc" by (intro tableSize_nonneg C0)
  define zeros where "zeros = replicate (nat (tableSize vars nc)) (0 :: real)"
  have mk: "makeSlice (tableSize vars nc) = Inr zeros"
    using size0 by (simp add: makeSlice_def zeros_def)
  have len: "int (length zeros) = tableSize vars nc"
    using size0 by (simp add: zeros_def)
  have "\<exists>res'. multiplyHelper A B vars nc vars fmempty zeros = Inr res'
           \<and> length res' = length zeros
           \<and> (\<forall>a. (\<forall>v\<in>set []. readInt a v = readInt fmempty v)
                  \<and> (\<forall>v\<in>set vars. 0 \<le> readInt a v \<and> readInt a v < readInt nc v)
                \<longrightarrow> res' ! nat (assignmentToIndex vars a nc)
                      = Values A ! nat (projectAssignmentToIndex A a)
                        * Values B ! nat (projectAssignmentToIndex B a))
           \<and> (\<forall>j. 0 \<le> j \<and> j < int (length zeros)
                  \<and> (j < assignmentToIndex [] fmempty nc * tableSize vars nc
                     \<or> assignmentToIndex [] fmempty nc * tableSize vars nc + tableSize vars nc \<le> j)
                \<longrightarrow> res' ! nat j = zeros ! nat j)"
  proof (rule multiplyHelper_cells [where pre = "[]"])
    show "set (Variables A) \<subseteq> set vars" "set (Variables B) \<subseteq> set vars" using V by auto
    show "vars = [] @ vars" by simp
  qed (simp_all add: CA CB LA LB D C0 len)
  then obtain vals where
    run: "multiplyHelper A B vars nc vars fmempty zeros = Inr vals"
    and l: "length vals = length zeros"
    and cells: "\<And>a. (\<forall>v\<in>set vars. 0 \<le> readInt a v \<and> readInt a v < readInt nc v)
                \<Longrightarrow> vals ! nat (assignmentToIndex vars a nc)
                      = Values A ! nat (projectAssignmentToIndex A a)
                        * Values B ! nat (projectAssignmentToIndex B a)"
    by auto
  define C where "C = \<lparr>Variables = vars, Cardinality = nc, Values = vals\<rparr>"
  have "Multiply A B = Inr C"
    using merge mk run l len
    by (simp add: Multiply_def Let_def kvs_def [symmetric] vars_def [symmetric]
                  NewDiscreteFactor_fits C_def)
  moreover have "Values C ! nat (assignmentToIndex (Variables C) asg (Cardinality C))
                       = Values A ! nat (projectAssignmentToIndex A asg)
                         * Values B ! nat (projectAssignmentToIndex B asg)"
    if "inRange C asg" for asg
    using that cells [of asg] by (simp add: inRange_def C_def list_all_iff)
  ultimately show "\<exists>C. Multiply A B = Inr C
               \<and> sorted (Variables C) \<and> distinct (Variables C)
               \<and> set (Variables C) = set (Variables A) \<union> set (Variables B)
               \<and> (\<forall>v\<in>set (Variables A). readInt (Cardinality C) v = readInt (Cardinality A) v)
               \<and> (\<forall>v\<in>set (Variables B). readInt (Cardinality C) v = readInt (Cardinality B) v)
               \<and> (\<forall>asg. inRange C asg \<longrightarrow>
                     Values C ! nat (assignmentToIndex (Variables C) asg (Cardinality C))
                       = Values A ! nat (projectAssignmentToIndex A asg)
                         * Values B ! nat (projectAssignmentToIndex B asg))"
    using D S V CA CB by (intro exI [of _ C]) (simp add: C_def)
next
  assume "\<not> cardinalitiesAgree A B"
  then obtain k a b where "fmlookup (Cardinality A) k = Some a"
    "fmlookup (Cardinality B) k = Some b" "a \<noteq> b"
    unfolding cardinalitiesAgree_iff by blast
  then obtain k' where
    "mergeCardinality (Cardinality A) (sorted_list_of_fmap (Cardinality B))
       = Inl (Err (CardinalityMismatch k'))"
    using mergeCardinality_mismatch [of "sorted_list_of_fmap (Cardinality B)" k b "Cardinality A" a]
      sorted_list_of_fmap_keys(1,3) [where m = "Cardinality B"] by blast
  then show "\<exists>k. Multiply A B = Inl (Err (CardinalityMismatch k))"
    by (simp add: Multiply_def Let_def)
qed


theorem Multiply_correct_witness:
  "validFactor factorA1 \<and> validFactor factorAB \<and> cardinalitiesAgree factorA1 factorAB
   \<and> Multiply factorA1 factorAB
        = Inr \<lparr>Variables = [''A'', ''B''], Cardinality = fmap_of_list [(''A'', 2), (''B'', 2)],
               Values = [3 / 100, 3 / 50, 21 / 100, 7 / 25]\<rparr>
   \<and> inRange \<lparr>Variables = [''A'', ''B''], Cardinality = fmap_of_list [(''A'', 2), (''B'', 2)],
               Values = [3 / 100, 3 / 50, 21 / 100, 7 / 25]\<rparr>
              (fmap_of_list [(''A'', 1), (''B'', 0)])
   \<and> [3 / 100, 3 / 50, 21 / 100, 7 / 25]
         ! nat (assignmentToIndex [''A'', ''B''] (fmap_of_list [(''A'', 1), (''B'', 0)])
                  (fmap_of_list [(''A'', 2), (''B'', 2)]))
       = Values factorA1 ! nat (projectAssignmentToIndex factorA1 (fmap_of_list [(''A'', 1), (''B'', 0)]))
         * Values factorAB ! nat (projectAssignmentToIndex factorAB (fmap_of_list [(''A'', 1), (''B'', 0)]))
   \<and> Multiply factorA1 factorA2
        = Inr \<lparr>Variables = [''A''], Cardinality = fmap_of_list [(''A'', 2)],
               Values = [3 / 20, 7 / 20]\<rparr>
   \<and> validFactor factorX \<and> validFactor factorY \<and> \<not> cardinalitiesAgree factorX factorY
   \<and> (\<exists>k. Multiply factorX factorY = Inl (Err (CardinalityMismatch k)))"
proof -
  define C where "C = \<lparr>Variables = [''A'', ''B''],
                         Cardinality = fmap_of_list [(''A'', 2 :: int), (''B'', 2)],
                         Values = [3 / 100, 3 / 50, 21 / 100, 7 / 25 :: real]\<rparr>"
  define asg where "asg = fmap_of_list [(''A'', 1 :: int), (''B'', 0)]"
  have v1: "validFactor factorA1" and v2: "validFactor factorAB" by code_simp+
  have ag: "cardinalitiesAgree factorA1 factorAB" by code_simp
  have m: "Multiply factorA1 factorAB = Inr C" unfolding C_def by code_simp
  have r: "inRange C asg" unfolding C_def asg_def by code_simp
  have s3: "Multiply factorA1 factorA2
        = Inr \<lparr>Variables = [''A''], Cardinality = fmap_of_list [(''A'', 2)],
               Values = [3 / 20, 7 / 20]\<rparr>"
    by code_simp
  have vx: "validFactor factorX" and vy: "validFactor factorY" by code_simp+
  have dis: "\<not> cardinalitiesAgree factorX factorY" by code_simp
  have "Values C ! nat (assignmentToIndex (Variables C) asg (Cardinality C))
          = Values factorA1 ! nat (projectAssignmentToIndex factorA1 asg)
            * Values factorAB ! nat (projectAssignmentToIndex factorAB asg)"
    using Multiply_correct [OF v1 v2] ag m r by auto
  moreover have "\<exists>k. Multiply factorX factorY = Inl (Err (CardinalityMismatch k))"
    using Multiply_correct [OF vx vy] dis by blast
  ultimately show ?thesis
    using v1 v2 ag m r s3 vx vy dis unfolding C_def asg_def by simp
qed

text \<open>
  Claim C4, counterexample. The claim promises a product whenever the cardinalities agree
  on every shared variable. The factors over \<open>X\<close> and over \<open>Y\<close> share no variable, but
  their cardinality maps also mention \<open>Z\<close>, with 3 and with 4 states: \<^verbatim>\<open>Multiply\<close>
  compares every key of the second map and returns the mismatch error for \<open>Z\<close>.
\<close>

theorem Multiply_fails_without_shared_variable:
  "validFactor factorX \<and> validFactor factorY
   \<and> set (Variables factorX) \<inter> set (Variables factorY) = {}
   \<and> Multiply factorX factorY = Inl (Err (CardinalityMismatch ''Z''))"
  by code_simp

section \<open>Properties of Gaussian factors\<close>






subsection \<open>Multiplication of Gaussian factors with maps keyed by their own variables\<close>

lemma checkRow_None_iff:
  "checkRow covariance v1 row vs = None \<longleftrightarrow>
     (\<forall>v2\<in>set vs. fmlookup row v2 \<noteq> None
        \<and> \<bar>covAt covariance v1 v2 - covAt covariance v2 v1\<bar> \<le> 1 / 10 ^ 9)"
  by (induction vs) (auto simp: not_less)

lemma checkCovariance_None_iff:
  "checkCovariance covariance variables vs = None \<longleftrightarrow>
     (\<forall>v1\<in>set vs. \<exists>row. fmlookup covariance v1 = Some row
        \<and> checkRow covariance v1 row variables = None)"
  by (induction vs) (auto split: option.splits)

lemma find_None_iff': "find P xs = None \<longleftrightarrow> (\<forall>x\<in>set xs. \<not> P x)"
  by (auto simp: find_None_iff)

lemma find_Some_holds: "find P xs = Some x \<Longrightarrow> x \<in> set xs \<and> P x"
  by (induction xs) (auto split: if_splits)

lemma NewGaussianFactor_Inr_iff:
  "NewGaussianFactor variables mean covariance
     = Inr \<lparr>GVariables = variables, Mean = mean, Covariance = covariance\<rparr> \<longleftrightarrow>
   variables \<noteq> [] \<and> (\<forall>v\<in>set variables. fmlookup mean v \<noteq> None)
   \<and> checkCovariance covariance variables variables = None"
  by (auto simp: NewGaussianFactor_def find_None_iff' split: option.splits
           dest: find_Some_holds)

lemma validGaussian_iff:
  "validGaussian gf \<longleftrightarrow>
     GVariables gf \<noteq> [] \<and> (\<forall>v\<in>set (GVariables gf). fmlookup (Mean gf) v \<noteq> None)
     \<and> checkCovariance (Covariance gf) (GVariables gf) (GVariables gf) = None"
proof (cases gf)
  case (fields vs m c)
  then show ?thesis
    using NewGaussianFactor_Inr_iff [of vs m c] by (simp add: validGaussian_def)
qed

lemma validGaussian_symmetric:
  assumes "validGaussian gf" "v \<in> set (GVariables gf)" "w \<in> set (GVariables gf)"
  shows "\<bar>covAt (Covariance gf) v w - covAt (Covariance gf) w v\<bar> \<le> 1 / 10 ^ 9"
proof -
  have "checkCovariance (Covariance gf) (GVariables gf) (GVariables gf) = None"
    using assms(1) by (simp add: validGaussian_iff)
  then obtain row where "checkRow (Covariance gf) v row (GVariables gf) = None"
    using assms(2) unfolding checkCovariance_None_iff by blast
  then show ?thesis using assms(3) unfolding checkRow_None_iff by blast
qed

lemma fmlookup_table:
  "fmlookup (fmap_of_list (map (\<lambda>v. (v, g v)) vs)) k = (if k \<in> set vs then Some (g k) else None)"
  by (simp add: fmlookup_of_list map_of_map_restrict restrict_map_def)

lemma covAt_table:
  "covAt (fmap_of_list (map (\<lambda>v. (v, fmap_of_list (map (\<lambda>w. (w, h v w)) vs))) vs)) a b
     = (if a \<in> set vs \<and> b \<in> set vs then h a b else 0)"
  by (simp add: covAt_def readReal_def fmlookup_table)

lemma readReal_table:
  "readReal (fmap_of_list (map (\<lambda>v. (v, g v)) vs)) k = (if k \<in> set vs then g k else 0)"
  by (simp add: readReal_def fmlookup_table)

lemma GaussianMultiply_overlap:
  assumes "set (GVariables A) \<inter> set (GVariables B) \<noteq> {}"
  shows "GaussianMultiply A B = Inl (Err DependentMultiplyNotImplemented)"
proof -
  have "\<not> list_all (\<lambda>v. v \<notin> set (GVariables B)) (GVariables A)"
    using assms by (auto simp: list_all_iff)
  then show ?thesis by (simp add: GaussianMultiply_def Let_def)
qed

lemma GaussianMultiply_block_diagonal:
  assumes vA: "validGaussian A" and vB: "validGaussian B"
    and disj: "set (GVariables A) \<inter> set (GVariables B) = {}"
    and ownA: "\<forall>v\<in>set (GVariables B). fmlookup (Mean A) v = None"
    and ownB: "\<forall>v\<in>set (GVariables A). fmlookup (Mean B) v = None"
  shows "\<exists>C. GaussianMultiply A B = Inr C
           \<and> GVariables C = sort (remdups (GVariables A @ GVariables B))
           \<and> (\<forall>v\<in>set (GVariables A). readReal (Mean C) v = readReal (Mean A) v)
           \<and> (\<forall>v\<in>set (GVariables B). readReal (Mean C) v = readReal (Mean B) v)
           \<and> (\<forall>v\<in>set (GVariables A). \<forall>w\<in>set (GVariables A).
                 covAt (Covariance C) v w = covAt (Covariance A) v w)
           \<and> (\<forall>v\<in>set (GVariables B). \<forall>w\<in>set (GVariables B).
                 covAt (Covariance C) v w = covAt (Covariance B) v w)
           \<and> (\<forall>v\<in>set (GVariables A). \<forall>w\<in>set (GVariables B).
                 covAt (Covariance C) v w = 0 \<and> covAt (Covariance C) w v = 0)"
proof -
  define vars where "vars = sort (remdups (GVariables A @ GVariables B))"
  define g where "g = (\<lambda>v. if fmlookup (Mean A) v \<noteq> None then readReal (Mean A) v
                            else readReal (Mean B) v)"
  define h where "h = (\<lambda>v v2. if fmlookup (Mean A) v \<noteq> None
                  then (if fmlookup (Mean A) v2 \<noteq> None then covAt (Covariance A) v v2 else 0)
                  else (if fmlookup (Mean B) v2 \<noteq> None then covAt (Covariance B) v v2 else 0))"
  define newMean where "newMean = fmap_of_list (map (\<lambda>v. (v, g v)) vars)"
  define newCov where
    "newCov = fmap_of_list (map (\<lambda>v. (v, fmap_of_list (map (\<lambda>w. (w, h v w)) vars))) vars)"
  define C where "C = \<lparr>GVariables = vars, Mean = newMean, Covariance = newCov\<rparr>"
  have V: "set vars = set (GVariables A) \<union> set (GVariables B)" by (simp add: vars_def)
  have inA: "fmlookup (Mean A) v \<noteq> None" if "v \<in> set (GVariables A)" for v
    using vA that by (simp add: validGaussian_iff)
  have inB: "fmlookup (Mean B) v \<noteq> None" if "v \<in> set (GVariables B)" for v
    using vB that by (simp add: validGaussian_iff)
  have notA: "fmlookup (Mean A) v = None" if "v \<in> set (GVariables B)" for v
    using ownA that by simp
  have notB: "fmlookup (Mean B) v = None" if "v \<in> set (GVariables A)" for v
    using ownB that by simp
  have hAA: "h v w = covAt (Covariance A) v w"
    if "v \<in> set (GVariables A)" "w \<in> set (GVariables A)" for v w
    using inA [OF that(1)] inA [OF that(2)] by (simp add: h_def)
  have hBB: "h v w = covAt (Covariance B) v w"
    if "v \<in> set (GVariables B)" "w \<in> set (GVariables B)" for v w
    using notA [OF that(1)] inB [OF that(2)] by (simp add: h_def)
  have hAB: "h v w = 0" "h w v = 0"
    if "v \<in> set (GVariables A)" "w \<in> set (GVariables B)" for v w
    using inA [OF that(1)] notA [OF that(2)] notB [OF that(1)] by (simp_all add: h_def)
  have sym: "\<bar>h v w - h w v\<bar> \<le> 1 / 10 ^ 9" if vw: "v \<in> set vars" "w \<in> set vars" for v w
  proof -
    consider "v \<in> set (GVariables A)" "w \<in> set (GVariables A)"
      | "v \<in> set (GVariables A)" "w \<in> set (GVariables B)"
      | "v \<in> set (GVariables B)" "w \<in> set (GVariables A)"
      | "v \<in> set (GVariables B)" "w \<in> set (GVariables B)"
      using vw V by auto
    then show ?thesis
    proof cases
      case 1
      then show ?thesis using validGaussian_symmetric [OF vA 1] by (simp add: hAA)
    next
      case 2
      then show ?thesis by (simp add: hAB)
    next
      case 3
      then show ?thesis by (simp add: hAB)
    next
      case 4
      then show ?thesis using validGaussian_symmetric [OF vB 4] by (simp add: hBB)
    qed
  qed
  have ne: "vars \<noteq> []"
  proof
    assume "vars = []"
    then have "set (GVariables A) = {}" using V by simp
    then show False using vA by (simp add: validGaussian_iff)
  qed
  have means: "\<forall>v\<in>set vars. fmlookup newMean v \<noteq> None"
    by (simp add: newMean_def fmlookup_table)
  have rows: "checkCovariance newCov vars vars = None"
    unfolding checkCovariance_None_iff
  proof
    fix v1 assume v1: "v1 \<in> set vars"
    define row where "row = fmap_of_list (map (\<lambda>w. (w, h v1 w)) vars)"
    have "fmlookup newCov v1 = Some row"
      using v1 by (simp add: newCov_def fmlookup_table row_def)
    moreover have "checkRow newCov v1 row vars = None"
      unfolding checkRow_None_iff
    proof
      fix v2 assume v2: "v2 \<in> set vars"
      have "fmlookup row v2 \<noteq> None" using v2 by (simp add: row_def fmlookup_table)
      moreover have "\<bar>covAt newCov v1 v2 - covAt newCov v2 v1\<bar> \<le> 1 / 10 ^ 9"
        using sym [OF v1 v2] v1 v2 by (simp add: newCov_def covAt_table)
      ultimately show "fmlookup row v2 \<noteq> None
          \<and> \<bar>covAt newCov v1 v2 - covAt newCov v2 v1\<bar> \<le> 1 / 10 ^ 9"
        by simp
    qed
    ultimately show "\<exists>row. fmlookup newCov v1 = Some row \<and> checkRow newCov v1 row vars = None"
      by blast
  qed
  have NG: "NewGaussianFactor vars newMean newCov = Inr C"
    unfolding C_def NewGaussianFactor_Inr_iff using ne means rows by simp
  have dl: "list_all (\<lambda>v. v \<notin> set (GVariables B)) (GVariables A)"
    using disj by (auto simp: list_all_iff)
  have run: "GaussianMultiply A B = Inr C"
    unfolding GaussianMultiply_def Let_def vars_def [symmetric]
    using NG [unfolded newMean_def newCov_def g_def h_def] dl
    by (simp only: if_True)
  have mA: "readReal (Mean C) v = readReal (Mean A) v" if "v \<in> set (GVariables A)" for v
    using that V inA [OF that] by (simp add: C_def newMean_def readReal_table g_def)
  have mB: "readReal (Mean C) v = readReal (Mean B) v" if "v \<in> set (GVariables B)" for v
    using that V notA [OF that] by (simp add: C_def newMean_def readReal_table g_def)
  have cov: "covAt (Covariance C) v w = h v w" if "v \<in> set vars" "w \<in> set vars" for v w
    using that by (simp add: C_def newCov_def covAt_table)
  show ?thesis
  proof (intro exI [of _ C] conjI ballI)
    show "GaussianMultiply A B = Inr C" by (rule run)
    show "GVariables C = sort (remdups (GVariables A @ GVariables B))"
      by (simp add: C_def vars_def)
  next
    fix v assume "v \<in> set (GVariables A)"
    then show "readReal (Mean C) v = readReal (Mean A) v" by (rule mA)
  next
    fix v assume "v \<in> set (GVariables B)"
    then show "readReal (Mean C) v = readReal (Mean B) v" by (rule mB)
  next
    fix v w assume "v \<in> set (GVariables A)" "w \<in> set (GVariables A)"
    then show "covAt (Covariance C) v w = covAt (Covariance A) v w"
      using cov [of v w] V by (simp add: hAA)
  next
    fix v w assume "v \<in> set (GVariables B)" "w \<in> set (GVariables B)"
    then show "covAt (Covariance C) v w = covAt (Covariance B) v w"
      using cov [of v w] V by (simp add: hBB)
  next
    fix v w assume vw: "v \<in> set (GVariables A)" "w \<in> set (GVariables B)"
    then show "covAt (Covariance C) v w = 0"
      using cov [of v w] V by (simp add: hAB)
    show "covAt (Covariance C) w v = 0"
      using vw cov [of w v] V by (simp add: hAB)
  qed
qed

text \<open>
  Claim C6. The claim says that for two Gaussian factors over disjoint variables
  \<^verbatim>\<open>Multiply\<close> returns the block-diagonal joint. \<^verbatim>\<open>Multiply\<close> decides which operand a
  variable belongs to by looking for a key in the receiver's \<^verbatim>\<open>Mean\<close> map, not in its
  variable list. \<^verbatim>\<open>NewGaussianFactor\<close> accepts a mean map with more keys than variables;
  for a receiver over \<open>X\<close> whose mean map also has a key \<open>Y\<close>, the product with a factor
  over \<open>Y\<close> (mean 1, variance 2) takes the mean 5 of \<open>Y\<close> from the receiver and the variance
  of \<open>Y\<close> from the receiver's covariance, where it is missing and reads as 0. The two
  lemmas above show what the code does otherwise: the error for operands that share a
  variable, and the block-diagonal joint when neither mean map has an entry for a
  variable of the other operand.
\<close>

theorem GaussianMultiply_stale_mean_key:
  "validGaussian gaussXstale \<and> validGaussian gaussY
   \<and> set (GVariables gaussXstale) \<inter> set (GVariables gaussY) = {}
   \<and> readReal (Mean gaussY) ''Y'' = 1 \<and> covAt (Covariance gaussY) ''Y'' ''Y'' = 2
   \<and> GaussianMultiply gaussXstale gaussY
       = Inr \<lparr>GVariables = [''X'', ''Y''],
              Mean = fmap_of_list [(''X'', 0), (''Y'', 5)],
              Covariance = fmap_of_list [(''X'', fmap_of_list [(''X'', 1), (''Y'', 0)]),
                                         (''Y'', fmap_of_list [(''X'', 0), (''Y'', 0)])]\<rparr>"
  by code_simp

section \<open>Properties of the linear-Gaussian fit\<close>




section \<open>Properties of the chi-square test\<close>

lemma fold_add: "fold (\<lambda>j c. c + g j) js (c :: real) = c + sum_list (map g js)"
  by (induction js arbitrary: c) simp_all

lemma addStratum_shift:
  "addStratum counts totalCounts xCard yCard k chiSquare
     = chiSquare + addStratum counts totalCounts xCard yCard k 0"
proof -
  define cell where "cell = (\<lambda>i j.
      let expected = xMarginal counts yCard k i * yMarginal counts xCard k j / totalCounts ! k
      in if expected > 0 then (counts ! i ! j ! k - expected) ^ 2 / expected else 0)"
  have inner: "(\<lambda>j chi. let expected = xMarginal counts yCard k i * yMarginal counts xCard k j
                                          / totalCounts ! k
                        in if expected > 0
                           then chi + (counts ! i ! j ! k - expected) ^ 2 / expected
                           else chi)
                = (\<lambda>j chi. chi + cell i j)" for i
    by (intro ext) (simp add: cell_def Let_def)
  have "addStratum counts totalCounts xCard yCard k c
          = c + (\<Sum>i\<leftarrow>[0..<xCard]. \<Sum>j\<leftarrow>[0..<yCard]. cell i j)" for c
  proof -
    have row: "fold (\<lambda>j chi. chi + cell i j) [0..<yCard]
                 = (\<lambda>chi. chi + sum_list (map (cell i) [0..<yCard]))" for i
      by (intro ext) (rule fold_add)
    show ?thesis
      unfolding addStratum_def inner row by (rule fold_add)
  qed
  from this [of chiSquare] this [of 0] show ?thesis by simp
qed

lemma strata_fold:
  "fold (\<lambda>k chiSquare. if totalCounts ! k < 5 then chiSquare
                         else addStratum counts totalCounts xCard yCard k chiSquare) ks c
     = c + (\<Sum>k\<leftarrow>filter (\<lambda>k. \<not> totalCounts ! k < 5) ks.
              addStratum counts totalCounts xCard yCard k 0)"
proof (induction ks arbitrary: c)
  case Nil
  show ?case by simp
next
  case (Cons k ks)
  show ?case
    using addStratum_shift [of counts totalCounts xCard yCard k c]
    by (simp add: Cons)
qed

lemma chiSquarePValue_range: "0 \<le> chiSquarePValue chiSquare df \<and> chiSquarePValue chiSquare df \<le> 1"
  by (simp add: chiSquarePValue_def Let_def)

lemma chiSquarePValue_zero: "chiSquarePValue 0 df = 1"
  by (simp add: chiSquarePValue_def)

text \<open>
  Claim C9. Whenever the contingency table is built without a panic, \<^verbatim>\<open>ChiSquareTest\<close>
  returns a statistic and a p-value such that: the statistic is the sum of the
  contributions of the strata whose total count is at least 5, so a stratum below 5
  contributes nothing; if every stratum is below 5, the statistic is 0 and the p-value
  is 1; and the p-value lies in \<open>[0, 1]\<close>.
\<close>

theorem ChiSquareTest_sparse_strata:
  assumes "countTable data x y z cardinality = Inr (counts, totalCounts)"
  shows "\<exists>chiSquare pValue.
           ChiSquareTest data x y z cardinality = Inr (chiSquare, pValue)
         \<and> chiSquare = (\<Sum>k\<leftarrow>filter (\<lambda>k. \<not> totalCounts ! k < 5)
                                    [0..<nat (tableSize z cardinality)].
                          addStratum counts totalCounts (nat (readInt cardinality x))
                            (nat (readInt cardinality y)) k 0)
         \<and> (list_all (\<lambda>k. totalCounts ! k < 5) [0..<nat (tableSize z cardinality)]
              \<longrightarrow> chiSquare = 0 \<and> pValue = 1)
         \<and> 0 \<le> pValue \<and> pValue \<le> 1"
proof -
  define zCard where "zCard = nat (tableSize z cardinality)"
  define xCard where "xCard = nat (readInt cardinality x)"
  define yCard where "yCard = nat (readInt cardinality y)"
  define chiSquare where "chiSquare = chiSquareStatistic counts totalCounts xCard yCard zCard"
  define df where "df = real_of_int ((readInt cardinality x - 1) * (readInt cardinality y - 1)
                                       * tableSize z cardinality)"
  have run: "ChiSquareTest data x y z cardinality = Inr (chiSquare, chiSquarePValue chiSquare df)"
    using assms by (simp add: ChiSquareTest_def Let_def chiSquare_def df_def xCard_def yCard_def zCard_def)
  have total: "chiSquare = (\<Sum>k\<leftarrow>filter (\<lambda>k. \<not> totalCounts ! k < 5) [0..<zCard].
                          addStratum counts totalCounts xCard yCard k 0)"
    unfolding chiSquare_def chiSquareStatistic_def by (simp add: strata_fold)
  have skipped: "chiSquare = 0 \<and> chiSquarePValue chiSquare df = 1"
    if "list_all (\<lambda>k. totalCounts ! k < 5) [0..<zCard]"
  proof -
    have "filter (\<lambda>k. \<not> totalCounts ! k < 5) [0..<zCard] = []"
      using that by (simp add: filter_empty_conv list_all_iff)
    then have "chiSquare = 0" using total by simp
    then show ?thesis by (simp add: chiSquarePValue_zero)
  qed
  show ?thesis
    using run total skipped chiSquarePValue_range [of chiSquare df]
    unfolding zCard_def xCard_def yCard_def by blast
qed

theorem ChiSquareTest_sparse_strata_witness:
  "countTable sparseData ''A'' ''B'' [''C''] binaryCards
     = Inr ([[[1, 0], [0, 1]], [[0, 1], [1, 0]]], [2, 2])
   \<and> list_all (\<lambda>k. [2, 2 :: real] ! k < 5) [0..<nat (tableSize [''C''] binaryCards)]
   \<and> ChiSquareTest sparseData ''A'' ''B'' [''C''] binaryCards = Inr (0, 1)"
proof -
  have ct: "countTable sparseData ''A'' ''B'' [''C''] binaryCards
     = Inr ([[[1, 0], [0, 1]], [[0, 1], [1, 0]]], [2, 2])"
    by code_simp
  have sk: "list_all (\<lambda>k. [2, 2 :: real] ! k < 5) [0..<nat (tableSize [''C''] binaryCards)]"
    by code_simp
  show ?thesis
    using ct sk ChiSquareTest_sparse_strata [OF ct] by auto
qed

end
